theory Spec2Isabelle
  imports Complex_Main "HOL-Library.Sublist"
begin

section \<open>Text: Python strings as lists of code points\<close>

text \<open>
  A Python \<open>str\<close> is a sequence of Unicode code points, and the regular expressions and
  the \<open>in\<close> tests of both scripts work on code points. A line is therefore a list of
  natural numbers, one per code point. The literals of the scripts are written out as
  their code points.
\<close>

type_synonym ustr = "nat list"

text \<open>
  \<open>str.isspace\<close>, \<open>str.strip\<close> and the class \<open>\s\<close> of \<open>re\<close> (on a \<open>str\<close> pattern) share
  one set of white-space code points.
\<close>

definition isspace :: "nat \<Rightarrow> bool" where
  "isspace c \<longleftrightarrow>
     (0x09 \<le> c \<and> c \<le> 0x0D) \<or> (0x1C \<le> c \<and> c \<le> 0x20) \<or> c = 0x85 \<or> c = 0xA0 \<or>
     c = 0x1680 \<or> (0x2000 \<le> c \<and> c \<le> 0x200A) \<or> c = 0x2028 \<or> c = 0x2029 \<or>
     c = 0x202F \<or> c = 0x205F \<or> c = 0x3000"

text \<open>
  The class \<open>\d\<close> of \<open>re\<close> and the digits \<open>Decimal\<close> accepts are the code points of
  general category Nd. They come in runs \<open>0 .. 9\<close>; the list holds the code point of the
  zero of every run (Unicode 14.0, the table of CPython 3.11; the mathematical digits
  \<open>0x1D7CE .. 0x1D7FF\<close> are five runs).
\<close>

definition digit_zeros :: "nat list" where
  "digit_zeros =
     [0x30, 0x660, 0x6F0, 0x7C0, 0x966, 0x9E6, 0xA66, 0xAE6, 0xB66, 0xBE6, 0xC66, 0xCE6,
      0xD66, 0xDE6, 0xE50, 0xED0, 0xF20, 0x1040, 0x1090, 0x17E0, 0x1810, 0x1946, 0x19D0,
      0x1A80, 0x1A90, 0x1B50, 0x1BB0, 0x1C40, 0x1C50, 0xA620, 0xA8D0, 0xA900, 0xA9D0,
      0xA9F0, 0xAA50, 0xABF0, 0xFF10, 0x104A0, 0x10D30, 0x11066, 0x110F0, 0x11136,
      0x111D0, 0x112F0, 0x11450, 0x114D0, 0x11650, 0x116C0, 0x11730, 0x118E0, 0x11950,
      0x11C50, 0x11D50, 0x11DA0, 0x16A60, 0x16AC0, 0x16B50, 0x1D7CE, 0x1D7D8, 0x1D7E2,
      0x1D7EC, 0x1D7F6, 0x1E140, 0x1E2F0, 0x1E950, 0x1FBF0]"

definition digit_value :: "nat \<Rightarrow> nat option" where
  "digit_value c =
     (case List.find (\<lambda>z. z \<le> c \<and> c < z + 10) digit_zeros of
        None \<Rightarrow> None
      | Some z \<Rightarrow> Some (c - z))"

definition isdigit :: "nat \<Rightarrow> bool" where
  "isdigit c \<longleftrightarrow> digit_value c \<noteq> None"

definition lstrip :: "ustr \<Rightarrow> ustr" where
  "lstrip s = dropWhile isspace s"

definition rstrip :: "ustr \<Rightarrow> ustr" where
  "rstrip s = rev (dropWhile isspace (rev s))"

definition strip :: "ustr \<Rightarrow> ustr" where
  "strip s = rstrip (lstrip s)"

text \<open>\<open>k in s\<close> on strings: \<open>k\<close> occurs in \<open>s\<close> as a contiguous run.\<close>

fun py_in :: "ustr \<Rightarrow> ustr \<Rightarrow> bool" where
  "py_in k [] = (k = [])"
| "py_in k (c # cs) = (prefix k (c # cs) \<or> py_in k cs)"

subsection \<open>The date marker\<close>

text \<open>
  \<open>DATE_PATTERN\<close> is \<open>^\d{4}\s*Y\s*\d{1,2}\s*M\s*\d{1,2}\s*D\<close> with the three CJK
  characters for year, month and day. The classes of neighbouring items are disjoint
  (digits, white space, one fixed character), so the greedy match is the only candidate:
  backtracking a \<open>\s*\<close> or a \<open>\d{1,2}\<close> leaves a white-space character or a digit where
  a different class is required. Each matcher returns the rest of the text after the
  part it consumed.
\<close>

abbreviation ch_year :: nat where "ch_year \<equiv> 0x5E74"
abbreviation ch_month :: nat where "ch_month \<equiv> 0x6708"
abbreviation ch_day :: nat where "ch_day \<equiv> 0x65E5"

fun digits_4 :: "ustr \<Rightarrow> ustr option" where
  "digits_4 (a # b # c # d # r) =
     (if isdigit a \<and> isdigit b \<and> isdigit c \<and> isdigit d then Some r else None)"
| "digits_4 s = None"

fun digits_1_2 :: "ustr \<Rightarrow> ustr option" where
  "digits_1_2 [] = None"
| "digits_1_2 [c] = (if isdigit c then Some [] else None)"
| "digits_1_2 (c # d # cs) =
     (if isdigit c then (if isdigit d then Some cs else Some (d # cs)) else None)"

fun expect :: "nat \<Rightarrow> ustr \<Rightarrow> ustr option" where
  "expect k [] = None"
| "expect k (c # cs) = (if c = k then Some cs else None)"

definition date_pattern_match :: "ustr \<Rightarrow> ustr option" where
  "date_pattern_match s =
     (case digits_4 s of None \<Rightarrow> None | Some r1 \<Rightarrow>
     (case expect ch_year (lstrip r1) of None \<Rightarrow> None | Some r2 \<Rightarrow>
     (case digits_1_2 (lstrip r2) of None \<Rightarrow> None | Some r3 \<Rightarrow>
     (case expect ch_month (lstrip r3) of None \<Rightarrow> None | Some r4 \<Rightarrow>
     (case digits_1_2 (lstrip r4) of None \<Rightarrow> None | Some r5 \<Rightarrow>
        expect ch_day (lstrip r5))))))"

definition is_date_line :: "ustr \<Rightarrow> bool" where
  "is_date_line text \<longleftrightarrow> date_pattern_match (strip text) \<noteq> None"

section \<open>Decimal numbers under the context of the script\<close>

text \<open>
  A \<open>Decimal\<close> is a coefficient and an exponent: \<open>Dec c e\<close> stands for \<open>c * 10 ^ e\<close>, and
  \<open>1.50\<close> and \<open>1.5\<close> are different representations. The script sets the precision of the
  context to 12 significant digits; the rounding mode is the default, half to even.
  Construction from a string is exact; every arithmetic operation computes the exact
  result and then rounds it to the precision (\<open>dec_fix\<close>). The coefficient is a signed
  integer: the scripts build no negative zero. The exponent limits of the context
  (\<open>Emax = 999999\<close>, \<open>Emin = -999999\<close>) are not part of the model: a number reaches them
  only from a token of about a million characters.
\<close>

datatype decimal = Dec (coef: int) (expo: int)

datatype error = InvalidOperation

definition prec :: nat where
  "prec = 12"

fun ndigits :: "nat \<Rightarrow> nat" where
  "ndigits n = (if n < 10 then 1 else Suc (ndigits (n div 10)))"

text \<open>\<open>c / 10 ^ k\<close> rounded to an integer, a tie going to the even neighbour.\<close>

definition rhe_div :: "nat \<Rightarrow> nat \<Rightarrow> nat" where
  "rhe_div c k =
     (let p = 10 ^ k; q = c div p; r = c mod p
      in if 2 * r < p then q
         else if p < 2 * r then q + 1
         else if even q then q else q + 1)"

text \<open>
  \<open>dec_fix\<close>: a coefficient of more than \<open>prec\<close> digits is rounded to \<open>prec\<close> digits; when the
  rounding carries into a further digit, the last digit (a zero) is dropped.
\<close>

definition dec_fix :: "decimal \<Rightarrow> decimal" where
  "dec_fix d =
     (let c = nat \<bar>coef d\<bar>; n = ndigits c
      in if n \<le> prec then d
         else
           (let k = n - prec; q = rhe_div c k
            in if prec < ndigits q then Dec (sgn (coef d) * int (q div 10)) (expo d + int k + 1)
               else Dec (sgn (coef d) * int q) (expo d + int k)))"

definition dec_add :: "decimal \<Rightarrow> decimal \<Rightarrow> decimal" where
  "dec_add x y =
     (let e = min (expo x) (expo y)
      in dec_fix (Dec (coef x * 10 ^ nat (expo x - e) + coef y * 10 ^ nat (expo y - e)) e))"

definition dec_mul :: "decimal \<Rightarrow> decimal \<Rightarrow> decimal" where
  "dec_mul x y = dec_fix (Dec (coef x * coef y) (expo x + expo y))"

text \<open>The value of a decimal, as a rational number.\<close>

definition dec_val :: "decimal \<Rightarrow> rat" where
  "dec_val d = of_int (coef d) * 10 powi expo d"

text \<open>A decimal is within the precision when its coefficient has at most \<open>prec\<close> digits.\<close>

definition in_prec :: "decimal \<Rightarrow> bool" where
  "in_prec d \<longleftrightarrow> ndigits (nat \<bar>coef d\<bar>) \<le> prec"

text \<open>\<open>x > y\<close> and \<open>x == 0\<close> compare values, not representations.\<close>

definition dec_less :: "decimal \<Rightarrow> decimal \<Rightarrow> bool" where
  "dec_less x y =
     (let e = min (expo x) (expo y)
      in coef x * 10 ^ nat (expo x - e) < coef y * 10 ^ nat (expo y - e))"

definition is_zero :: "decimal \<Rightarrow> bool" where
  "is_zero x \<longleftrightarrow> coef x = 0"

text \<open>
  \<open>x.quantize(q)\<close> gives \<open>x\<close> the exponent of \<open>q\<close>, rounding half to even. It raises
  \<open>InvalidOperation\<close> when the result would have more than \<open>prec\<close> digits.
\<close>

definition quantize :: "decimal \<Rightarrow> decimal \<Rightarrow> error + decimal" where
  "quantize x q =
     (let c = nat \<bar>coef x\<bar>; e = expo q
      in if c = 0 then Inr (Dec 0 e)
         else if int prec < int (ndigits c) + expo x - e then Inl InvalidOperation
         else
           (let c' = (if e \<le> expo x then c * 10 ^ nat (expo x - e)
                      else rhe_div c (nat (e - expo x)))
            in if prec < ndigits c' then Inl InvalidOperation
               else Inr (Dec (sgn (coef x) * int c') e)))"

text \<open>
  The built-in \<open>sum\<close> starts from the integer 0 and adds the items from the left; each
  addition is a \<open>Decimal\<close> addition under the context.
\<close>

definition py_sum :: "decimal list \<Rightarrow> decimal" where
  "py_sum amts = foldl dec_add (Dec 0 0) amts"

text \<open>
  \<open>Decimal(num_str)\<close> for the strings the scripts pass: the numeric body of a currency
  token without its commas, so digits and points only. Such a string is a number when
  it has at most one point and at least one digit; \<open>None\<close> is the \<open>InvalidOperation\<close>
  the callers catch. (Signs, exponents, \<open>Inf\<close>, \<open>NaN\<close>, underscores and white space, which
  \<open>Decimal\<close> also reads, cannot occur in these strings.)
\<close>

abbreviation ch_plus :: nat where "ch_plus \<equiv> 0x2B"
abbreviation ch_minus :: nat where "ch_minus \<equiv> 0x2D"
abbreviation ch_comma :: nat where "ch_comma \<equiv> 0x2C"
abbreviation ch_point :: nat where "ch_point \<equiv> 0x2E"
abbreviation ch_tab :: nat where "ch_tab \<equiv> 0x09"
abbreviation ch_yen :: nat where "ch_yen \<equiv> 0xA5"
abbreviation ch_fullwidth_yen :: nat where "ch_fullwidth_yen \<equiv> 0xFFE5"

fun digits_nat :: "nat \<Rightarrow> ustr \<Rightarrow> nat option" where
  "digits_nat acc [] = Some acc"
| "digits_nat acc (c # cs) =
     (case digit_value c of None \<Rightarrow> None | Some d \<Rightarrow> digits_nat (10 * acc + d) cs)"

definition Decimal_str :: "ustr \<Rightarrow> decimal option" where
  "Decimal_str s =
     (let ip = takeWhile (\<lambda>c. c \<noteq> ch_point) s;
          fp = (case dropWhile (\<lambda>c. c \<noteq> ch_point) s of [] \<Rightarrow> [] | p # f \<Rightarrow> f)
      in if ip = [] \<and> fp = [] then None
         else (case digits_nat 0 (ip @ fp) of
                 None \<Rightarrow> None
               | Some n \<Rightarrow> Some (Dec (int n) (- int (length fp)))))"

section \<open>Amount extractor\<close>

text \<open>
  The two token patterns are \<open>[+-]?\s*G\s*([\d,.]+)\<close> (any sign) and \<open>\+\s*G\s*([\d,.]+)\<close>
  (a plus is required), where \<open>G\<close> is the class of the two currency glyphs. Signs, white
  space, glyphs and the characters of the numeric body are pairwise disjoint classes,
  so the greedy match from a position is the only candidate there. \<open>match_at\<close> returns
  group 1 and the text after the match.
\<close>

datatype pattern = AnySign | PlusOnly

definition is_glyph :: "nat \<Rightarrow> bool" where
  "is_glyph c \<longleftrightarrow> c = ch_yen \<or> c = ch_fullwidth_yen"

definition numchar :: "nat \<Rightarrow> bool" where
  "numchar c \<longleftrightarrow> isdigit c \<or> c = ch_comma \<or> c = ch_point"

definition match_body :: "ustr \<Rightarrow> (ustr \<times> ustr) option" where
  "match_body s =
     (case dropWhile isspace s of
        [] \<Rightarrow> None
      | g # r \<Rightarrow>
          if is_glyph g then
            (let r' = dropWhile isspace r
             in if takeWhile numchar r' = [] then None
                else Some (takeWhile numchar r', dropWhile numchar r'))
          else None)"

fun match_at :: "pattern \<Rightarrow> ustr \<Rightarrow> (ustr \<times> ustr) option" where
  "match_at p [] = None"
| "match_at AnySign (c # cs) =
     (if c = ch_plus \<or> c = ch_minus then match_body cs else match_body (c # cs))"
| "match_at PlusOnly (c # cs) = (if c = ch_plus then match_body cs else None)"

lemma match_body_shorter: "match_body s = Some (g, r) \<Longrightarrow> length r < length s"
proof -
  assume m: "match_body s = Some (g, r)"
  then obtain y ys where d: "dropWhile isspace s = y # ys"
    and r: "r = dropWhile numchar (dropWhile isspace ys)"
    by (auto simp: match_body_def Let_def split: list.splits if_splits)
  have "length r \<le> length ys"
    unfolding r by (meson le_trans length_dropWhile_le)
  moreover have "length (y # ys) \<le> length s"
    using length_dropWhile_le [of isspace s] d by simp
  ultimately show ?thesis by simp
qed

lemma match_at_shorter: "match_at p s = Some (g, r) \<Longrightarrow> length r < length s"
  by (cases p; cases s) (auto split: if_splits dest: match_body_shorter)

text \<open>
  \<open>re.finditer\<close>: the matches from left to right, each search starting where the match
  before ended; where no match starts, the search moves on by one character. A match is
  never empty.
\<close>

function finditer :: "pattern \<Rightarrow> ustr \<Rightarrow> ustr list" where
  "finditer p [] = []"
| "finditer p (c # cs) =
     (case match_at p (c # cs) of
        None \<Rightarrow> finditer p cs
      | Some (g, r) \<Rightarrow> g # finditer p r)"
  by pat_completeness auto
termination finditer
  by (relation "measure (\<lambda>(p, s). length s)") (auto dest: match_at_shorter)

definition remove_commas :: "ustr \<Rightarrow> ustr" where
  "remove_commas s = filter (\<lambda>c. c \<noteq> ch_comma) s"

text \<open>
  The loop body of \<open>extract_amounts\<close>: a body that \<open>Decimal\<close> rejects raises inside the
  \<open>try\<close> and the loop continues with the next match.
\<close>

definition token_amount :: "ustr \<Rightarrow> decimal option" where
  "token_amount g = Decimal_str (remove_commas g)"

definition extract_amounts :: "ustr \<Rightarrow> decimal list" where
  "extract_amounts text = List.map_filter token_amount (finditer AnySign text)"

section \<open>Record segmenter\<close>

text \<open>
  The loop of \<open>split_blocks\<close>, with its two variables \<open>blocks\<close> and \<open>current\<close> as
  accumulators. Python's \<open>if current:\<close> is the test for a non-empty list.
\<close>

fun split_loop :: "ustr list \<Rightarrow> ustr list list \<Rightarrow> ustr list \<Rightarrow> ustr list list" where
  "split_loop [] blocks current = (if current \<noteq> [] then blocks @ [current] else blocks)"
| "split_loop (line # lines) blocks current =
     (if is_date_line line then
        (if current \<noteq> [] then split_loop lines (blocks @ [current]) [line]
         else split_loop lines blocks [line])
      else
        (if current \<noteq> [] then split_loop lines blocks (current @ [line])
         else split_loop lines blocks [line]))"

definition split_blocks :: "ustr list \<Rightarrow> ustr list list" where
  "split_blocks lines = split_loop lines [] []"

section \<open>Record classifier\<close>

definition market_marker :: ustr where
  "market_marker = map of_char ''Steam '' @ [0x793E, 0x533A, 0x5E02, 0x573A]"

definition funds_marker :: ustr where
  "funds_marker = [0x8D44, 0x91D1]"

definition has_plus_glyph :: "ustr \<Rightarrow> bool" where
  "has_plus_glyph l \<longleftrightarrow> py_in [ch_plus, ch_yen] l \<or> py_in [ch_plus, ch_fullwidth_yen] l"

definition is_market_block :: "ustr list \<Rightarrow> bool" where
  "is_market_block block =
     (let has_market = list_ex (\<lambda>l. py_in market_marker l) block;
          has_funds = list_ex (\<lambda>l. py_in funds_marker l) block;
          has_plus = list_ex has_plus_glyph block
      in has_market \<and> has_funds \<and> has_plus)"

definition EXTERNAL_METHOD_KEYWORDS :: "ustr list" where
  "EXTERNAL_METHOD_KEYWORDS =
     [[0x652F, 0x4ED8, 0x5B9D],
      [0x5FAE, 0x4FE1, 0x652F, 0x4ED8],
      [0x5FAE, 0x4FE1],
      [0x94F6, 0x884C, 0x5361],
      [0x94F6, 0x8054],
      map of_char ''China UnionPay'',
      map of_char ''Visa'',
      map of_char ''MasterCard'',
      map of_char ''American Express'']"

definition has_method_keyword :: "ustr \<Rightarrow> bool" where
  "has_method_keyword line = list_ex (\<lambda>k. py_in k line) EXTERNAL_METHOD_KEYWORDS"

definition has_external_method :: "ustr list \<Rightarrow> bool" where
  "has_external_method block = list_ex has_method_keyword block"

section \<open>Cost aggregator\<close>

text \<open>
  The words of step 2 (wallet, balance, change) and the four two-character strings that
  steps 2 and 3 look for: a sign directly before a glyph.
\<close>

definition wallet_words :: "ustr list" where
  "wallet_words = [[0x94B1, 0x5305], [0x4F59, 0x989D], [0x53D8, 0x66F4]]"

definition has_signed_glyph :: "ustr \<Rightarrow> bool" where
  "has_signed_glyph line \<longleftrightarrow>
     py_in [ch_plus, ch_yen] line \<or> py_in [ch_plus, ch_fullwidth_yen] line \<or>
     py_in [ch_minus, ch_yen] line \<or> py_in [ch_minus, ch_fullwidth_yen] line"

text \<open>
  The loops of \<open>calc_external_for_block\<close>, one function per loop body; each takes the
  value of the loop's variable before the line and returns it after the line.
\<close>

definition market_token :: "decimal \<Rightarrow> ustr \<Rightarrow> decimal" where
  "market_token market_income g =
     (case token_amount g of None \<Rightarrow> market_income | Some d \<Rightarrow> dec_add market_income d)"

definition market_line :: "decimal \<Rightarrow> ustr \<Rightarrow> decimal" where
  "market_line market_income line = foldl market_token market_income (finditer PlusOnly line)"

definition step1_line :: "decimal \<Rightarrow> ustr \<Rightarrow> decimal" where
  "step1_line external_step1 line =
     (if has_method_keyword line \<and> py_in [ch_yen] line then
        (let amts = extract_amounts line
         in if amts \<noteq> [] then dec_add external_step1 (py_sum amts) else external_step1)
      else external_step1)"

definition step2_line :: "decimal \<Rightarrow> ustr \<Rightarrow> decimal" where
  "step2_line external_step2 line =
     (if \<not> py_in [ch_yen] line then external_step2
      else if list_ex (\<lambda>w. py_in w line) wallet_words then external_step2
      else if has_signed_glyph line then external_step2
      else
        (let amts = extract_amounts line
         in if amts \<noteq> [] then dec_add external_step2 (py_sum amts) else external_step2))"

definition step3_line :: "decimal option \<Rightarrow> ustr \<Rightarrow> decimal option" where
  "step3_line best line =
     (if \<not> has_signed_glyph line then best
      else
        (case extract_amounts line of
           [] \<Rightarrow> best
         | first # rest \<Rightarrow>
             (case best of
                None \<Rightarrow> Some first
              | Some b \<Rightarrow> if dec_less b first then Some first else best)))"

definition calc_external_for_block :: "ustr list \<Rightarrow> decimal \<times> decimal" where
  "calc_external_for_block block =
     (let market_income =
            (if is_market_block block then foldl market_line (Dec 0 0) block else Dec 0 0);
          external =
            (if has_external_method block then
               (let external_step1 = foldl step1_line (Dec 0 0) block;
                    external1 = dec_add (Dec 0 0) external_step1
                in if is_zero external_step1 then
                     (let external_step2 = foldl step2_line (Dec 0 0) block;
                          external2 = dec_add external1 external_step2
                      in if is_zero external_step2 then
                           (case foldl step3_line None block of
                              None \<Rightarrow> external2
                            | Some best \<Rightarrow> dec_add external2 best)
                         else external2)
                   else external1)
             else Dec 0 0)
      in (external, market_income))"

section \<open>Balance detector\<close>

fun detect_current_wallet_balance :: "ustr list \<Rightarrow> decimal option" where
  "detect_current_wallet_balance [] = None"
| "detect_current_wallet_balance (line # lines) =
     (let amts = extract_amounts line
      in if 3 \<le> length amts then Some (amts ! 2)
         else detect_current_wallet_balance lines)"

section \<open>The report\<close>

text \<open>
  \<open>main\<close> after the file is read and split into lines: the fold over the blocks, then
  the three rounded figures. A \<open>quantize\<close> that raises ends the run without a report.
\<close>

definition add_block :: "decimal \<times> decimal \<Rightarrow> ustr list \<Rightarrow> decimal \<times> decimal" where
  "add_block totals block =
     (case totals of (total_external, total_market_income) \<Rightarrow>
     (case calc_external_for_block block of (external, market_income) \<Rightarrow>
        (dec_add total_external external, dec_add total_market_income market_income)))"

definition block_totals :: "ustr list list \<Rightarrow> decimal \<times> decimal" where
  "block_totals blocks = foldl add_block (Dec 0 0, Dec 0 0) blocks"

record report =
  total_market_income :: decimal
  cost_from_market :: decimal
  direct_external :: decimal
  total_cost :: decimal
  current_balance :: "decimal option"

definition figures :: "decimal \<Rightarrow> decimal \<Rightarrow> error + (decimal \<times> decimal \<times> decimal)" where
  "figures total_ext total_market =
     (case quantize (dec_mul total_market (Dec 9 (- 1))) (Dec 1 (- 2)) of
        Inl e \<Rightarrow> Inl e
      | Inr cfm \<Rightarrow>
     (case quantize total_ext (Dec 1 (- 2)) of
        Inl e \<Rightarrow> Inl e
      | Inr direct \<Rightarrow>
     (case quantize (dec_add direct cfm) (Dec 1 (- 2)) of
        Inl e \<Rightarrow> Inl e
      | Inr tcost \<Rightarrow> Inr (cfm, direct, tcost))))"

definition main :: "ustr list \<Rightarrow> error + report" where
  "main lines =
     (case block_totals (split_blocks lines) of (total_ext, total_market) \<Rightarrow>
     (case figures total_ext total_market of
        Inl e \<Rightarrow> Inl e
      | Inr (cfm, direct, tcost) \<Rightarrow>
          Inr \<lparr>total_market_income = total_market, cost_from_market = cfm,
               direct_external = direct, total_cost = tcost,
               current_balance = detect_current_wallet_balance lines\<rparr>))"

section \<open>Formatter\<close>

definition category_keywords :: "ustr list" where
  "category_keywords =
     [[0x5E02, 0x573A, 0x4EA4, 0x6613],
      [0x8D2D, 0x4E70],
      [0x6E38, 0x620F, 0x5185, 0x8D2D, 0x4E70],
      [0x8D44, 0x91D1],
      [0x94B1, 0x5305],
      [0x652F, 0x4ED8, 0x5B9D]]"

text \<open>\<open>text.split(sep)\<close> for a separator of one character, and \<open>sep.join(parts)\<close>.\<close>

fun split_on :: "nat \<Rightarrow> ustr \<Rightarrow> ustr list" where
  "split_on sep [] = [[]]"
| "split_on sep (c # cs) =
     (if c = sep then [] # split_on sep cs
      else (case split_on sep cs of [] \<Rightarrow> [[c]] | p # ps \<Rightarrow> (c # p) # ps))"

fun join :: "ustr \<Rightarrow> ustr list \<Rightarrow> ustr" where
  "join sep [] = []"
| "join sep [p] = p"
| "join sep (p # q # ps) = p @ sep @ join sep (q # ps)"

definition prettify_line :: "ustr \<Rightarrow> ustr" where
  "prettify_line text =
     (let stripped = strip text
      in if stripped = [] then []
         else if py_in [ch_tab] text then
           (let parts = map strip (split_on ch_tab text)
            in join (map of_char '' | '') (filter (\<lambda>p. p \<noteq> []) parts))
         else if stripped \<in> set category_keywords then map of_char ''- '' @ stripped
         else rstrip text)"

definition rstrip_newline :: "ustr \<Rightarrow> ustr" where
  "rstrip_newline s = rev (dropWhile (\<lambda>c. c = 0x0A) (rev s))"

text \<open>
  The loop of \<open>format_cost_file\<close> over the lines read, with \<open>out_lines\<close> and
  \<open>first_content_written\<close> as accumulators. The result is \<open>out_lines\<close>; reading the file
  and writing the joined lines are outside.
\<close>

fun format_loop :: "ustr list \<Rightarrow> ustr list \<Rightarrow> bool \<Rightarrow> ustr list" where
  "format_loop [] out_lines first_content_written = out_lines"
| "format_loop (raw # lines) out_lines first_content_written =
     (let line = rstrip_newline raw; stripped = strip line
      in if is_date_line stripped then
           format_loop lines
             ((if first_content_written then out_lines @ [[], map of_char ''---'', []]
               else out_lines) @ [prettify_line line])
             True
         else if stripped = [] then format_loop lines (out_lines @ [[]]) first_content_written
         else format_loop lines (out_lines @ [prettify_line line]) first_content_written)"

definition format_cost_file :: "ustr list \<Rightarrow> ustr list" where
  "format_cost_file lines = format_loop lines [] False"

section \<open>Notions of the specification\<close>

text \<open>
  The specification speaks of currency tokens: a sign (optional in general, a plus for a
  positive-signed token), optional white space, a glyph, optional white space and a
  numeric body. A line contains such a token when the token pattern matches somewhere
  in it, and the amounts of its positive-signed tokens are the bodies of those matches
  that are numbers.
\<close>

definition contains_plus_token :: "ustr \<Rightarrow> bool" where
  "contains_plus_token l \<longleftrightarrow> finditer PlusOnly l \<noteq> []"

definition plus_amounts :: "ustr \<Rightarrow> decimal list" where
  "plus_amounts line = List.map_filter token_amount (finditer PlusOnly line)"

text \<open>
  Rounding to two decimal places, as the specification's \<open>round(x, 2)\<close> on exact numbers:
  to the nearest multiple of 1/100, a tie going to the even neighbour.
\<close>

definition round_half_even :: "rat \<Rightarrow> int" where
  "round_half_even q =
     (let f = \<lfloor>q\<rfloor>; r = q - of_int f
      in if r < 1 / 2 then f else if 1 / 2 < r then f + 1 else if even f then f else f + 1)"

definition round2 :: "rat \<Rightarrow> rat" where
  "round2 q = of_int (round_half_even (q * 100)) / 100"

text \<open>
  A line as the formatter leaves it: without a tab and without white space at its end.
\<close>

definition settled :: "ustr \<Rightarrow> bool" where
  "settled l \<longleftrightarrow> ch_tab \<notin> set l \<and> (l = [] \<or> \<not> isspace (last l))"

text \<open>
  A line seen as a sequence of currency tokens. A token is the text before it that holds
  no glyph (\<open>gap\<close>), an optional sign, white space, a glyph, white space and a numeric
  body: a non-empty run of digits, commas and points. A body ends where the line ends or
  where a character follows that is none of these, so the body of a token is the whole
  run after its glyph. After the last token comes a rest without a glyph.
\<close>

datatype token = Token (gap: ustr) (sign: ustr) (space1: ustr) (glyph: nat) (space2: ustr) (body: ustr)

definition render :: "token \<Rightarrow> ustr" where
  "render t = gap t @ sign t @ space1 t @ [glyph t] @ space2 t @ body t"

fun line_of :: "token list \<Rightarrow> ustr \<Rightarrow> ustr" where
  "line_of [] tail = tail"
| "line_of (t # ts) tail = render t @ line_of ts tail"

definition token_ok :: "token \<Rightarrow> bool" where
  "token_ok t \<longleftrightarrow>
     list_all (\<lambda>c. \<not> is_glyph c) (gap t) \<and>
     (sign t = [] \<or> sign t = [ch_plus] \<or> sign t = [ch_minus]) \<and>
     list_all isspace (space1 t) \<and> is_glyph (glyph t) \<and> list_all isspace (space2 t) \<and>
     body t \<noteq> [] \<and> list_all numchar (body t)"

definition body_ends :: "ustr \<Rightarrow> bool" where
  "body_ends rest \<longleftrightarrow> (case rest of [] \<Rightarrow> True | c # cs \<Rightarrow> \<not> numchar c)"

fun line_ok :: "token list \<Rightarrow> ustr \<Rightarrow> bool" where
  "line_ok [] tail = list_all (\<lambda>c. \<not> is_glyph c) tail"
| "line_ok (t # ts) tail = (token_ok t \<and> body_ends (line_of ts tail) \<and> line_ok ts tail)"

text \<open>
  A body is a number when it has at most one point and at least one digit. Its magnitude
  is the number it denotes without its commas: the digits before the point as an integer
  plus the digits after the point as a fraction.
\<close>

definition valid_body :: "ustr \<Rightarrow> bool" where
  "valid_body b \<longleftrightarrow> count_list b ch_point \<le> 1 \<and> list_ex isdigit b"

fun digits_value :: "ustr \<Rightarrow> nat" where
  "digits_value [] = 0"
| "digits_value (c # cs) =
     (case digit_value c of None \<Rightarrow> 0 | Some d \<Rightarrow> d) * 10 ^ length cs + digits_value cs"

definition magnitude :: "ustr \<Rightarrow> rat" where
  "magnitude b =
     (let s = remove_commas b;
          ip = takeWhile (\<lambda>c. c \<noteq> ch_point) s;
          fp = drop (Suc (length ip)) s
      in of_nat (digits_value ip) + of_nat (digits_value fp) / 10 ^ length fp)"

text \<open>
  The three-step fallback in the words of the specification. A line carries an explicitly
  signed currency token when somewhere in it a sign is followed by optional white space,
  a glyph, optional white space and a numeric body. A line contains a glyph when it
  contains one of the two. The sum of a step adds up, under the context, the sums of the
  amounts of its lines. The fallback is written for any reading \<open>signed\<close> of "the line
  carries a signed token"; its last step takes the first amount of every such line that
  has an amount and keeps the greatest, rounded to the precision of the context.
\<close>

fun contains_signed_token :: "ustr \<Rightarrow> bool" where
  "contains_signed_token [] = False"
| "contains_signed_token (c # cs) =
     ((c = ch_plus \<or> c = ch_minus) \<and> match_body cs \<noteq> None \<or> contains_signed_token cs)"

definition contains_glyph :: "ustr \<Rightarrow> bool" where
  "contains_glyph l \<longleftrightarrow> py_in [ch_yen] l \<or> py_in [ch_fullwidth_yen] l"

definition line_sum :: "ustr \<Rightarrow> decimal" where
  "line_sum l = py_sum (extract_amounts l)"

definition step_sum :: "(ustr \<Rightarrow> bool) \<Rightarrow> ustr list \<Rightarrow> decimal" where
  "step_sum q block = py_sum (map line_sum (filter q block))"

definition first_amounts :: "(ustr \<Rightarrow> bool) \<Rightarrow> ustr list \<Rightarrow> decimal list" where
  "first_amounts signed block =
     List.map_filter (\<lambda>l. case extract_amounts l of [] \<Rightarrow> None | a # rest \<Rightarrow> Some a)
       (filter signed block)"

definition max_step :: "decimal option \<Rightarrow> decimal \<Rightarrow> decimal option" where
  "max_step best d =
     (case best of None \<Rightarrow> Some d | Some b \<Rightarrow> if dec_less b d then Some d else Some b)"

definition max_amount :: "decimal list \<Rightarrow> decimal option" where
  "max_amount ds = foldl max_step None ds"

definition fallback_external :: "(ustr \<Rightarrow> bool) \<Rightarrow> ustr list \<Rightarrow> decimal" where
  "fallback_external signed block =
     (if \<not> has_external_method block then Dec 0 0
      else
        (let s1 = step_sum (\<lambda>l. has_method_keyword l \<and> contains_glyph l) block
         in if \<not> is_zero s1 then s1
            else
              (let s2 = step_sum (\<lambda>l. contains_glyph l \<and>
                                     \<not> list_ex (\<lambda>w. py_in w l) wallet_words \<and> \<not> signed l) block
               in if \<not> is_zero s2 then s2
                  else (case max_amount (first_amounts signed block) of
                          None \<Rightarrow> Dec 0 0
                        | Some m \<Rightarrow> dec_fix m))))"

section \<open>Example lines\<close>

text \<open>The balance line of the specification: three amounts separated by tabs.\<close>

definition balance_example :: ustr where
  "balance_example =
     [ch_yen] @ map of_char '' 76.80'' @ [ch_tab, ch_minus, ch_yen] @ map of_char '' 31.37'' @
     [ch_tab, ch_yen] @ map of_char '' 0.00''"

text \<open>A credit of 128.00, the plus directly before the glyph, and one with a space between.\<close>

definition plus_line :: ustr where
  "plus_line = [ch_plus, ch_yen] @ map of_char ''128.00''"

definition spaced_plus_line :: ustr where
  "spaced_plus_line = [ch_plus, 0x20, ch_yen] @ map of_char ''128.00''"

text \<open>A credit of 200000000.794, and the block that holds it.\<close>

definition big_credit_line :: ustr where
  "big_credit_line = [ch_plus, ch_yen] @ map of_char ''200000000.794''"

text \<open>
  The category keyword for a purchase, and three lines for the formatter: one with white
  space around it, an empty one and one with a tab.
\<close>

definition buy_word :: ustr where
  "buy_word = [0x8D2D, 0x4E70]"

definition plain_lines :: "ustr list" where
  "plain_lines = [map of_char ''  x  '', [], map of_char ''a'' @ [ch_tab] @ map of_char ''b '']"

text \<open>The tokens of the balance line.\<close>

definition balance_tokens :: "token list" where
  "balance_tokens =
     [Token [] [] [] ch_yen [0x20] (map of_char ''76.80''),
      Token [ch_tab] [ch_minus] [] ch_yen [0x20] (map of_char ''31.37''),
      Token [ch_tab] [] [] ch_yen [0x20] (map of_char ''0.00'')]"

text \<open>
  The keyword of a third-party wallet, a line with a debit written with a space after its
  sign and a second amount, a line with a bare price, and a line with the keyword and a
  price under the full-width glyph.
\<close>

definition alipay_word :: ustr where
  "alipay_word = [0x652F, 0x4ED8, 0x5B9D]"

definition spaced_debit_line :: ustr where
  "spaced_debit_line =
     [ch_minus, 0x20, ch_yen] @ map of_char ''5.00 '' @ [ch_yen] @ map of_char ''3.00''"

definition price_line :: ustr where
  "price_line = [ch_yen] @ map of_char ''59.00''"

definition fullwidth_price_line :: ustr where
  "fullwidth_price_line = alipay_word @ [0x20, ch_fullwidth_yen] @ map of_char ''59.00''"


section \<open>Evaluation\<close>

text \<open>The equations that compute the functions on concrete lines.\<close>

named_theorems ev

lemmas [ev] = isspace_def digit_value_def digit_zeros_def isdigit_def is_glyph_def numchar_def
  match_body_def token_amount_def Decimal_str_def remove_commas_def extract_amounts_def
  Let_def market_marker_def funds_marker_def has_plus_glyph_def
  is_market_block_def EXTERNAL_METHOD_KEYWORDS_def has_method_keyword_def has_external_method_def
  wallet_words_def has_signed_glyph_def market_token_def market_line_def step1_line_def
  step2_line_def step3_line_def calc_external_for_block_def prec_def rhe_div_def dec_fix_def
  dec_add_def dec_mul_def dec_less_def is_zero_def quantize_def py_sum_def ndigits.simps
  balance_example_def plus_line_def spaced_plus_line_def contains_plus_token_def plus_amounts_def

section \<open>Properties of the decimal arithmetic\<close>

declare ndigits.simps [simp del]

lemma ndigits_pos: "0 < ndigits c"
  by (subst ndigits.simps) simp

lemma ndigits_le_iff: "0 < n \<Longrightarrow> ndigits c \<le> n \<longleftrightarrow> c < 10 ^ n"
proof (induction c arbitrary: n rule: ndigits.induct)
  case (1 c)
  show ?case
  proof (cases "c < 10")
    case True
    have "(10::nat) ^ 1 \<le> 10 ^ n" using "1.prems" by (intro power_increasing) simp_all
    with True show ?thesis using "1.prems" by (subst ndigits.simps) simp
  next
    case False
    show ?thesis
    proof (cases n)
      case 0
      with "1.prems" show ?thesis by simp
    next
      case (Suc m)
      show ?thesis
      proof (cases "m = 0")
        case True
        with False Suc show ?thesis using ndigits_pos [of "c div 10"]
          by (subst ndigits.simps) simp
      next
        case m: False
        then have "ndigits (c div 10) \<le> m \<longleftrightarrow> c div 10 < 10 ^ m"
          using "1.IH" [OF False, of m] by simp
        moreover have "c div 10 < 10 ^ m \<longleftrightarrow> c < 10 ^ Suc m"
          by (simp add: div_less_iff_less_mult mult.commute)
        ultimately show ?thesis using False Suc
          by (subst ndigits.simps) simp
      qed
    qed
  qed
qed

lemma ndigits_gt_iff: "0 < n \<Longrightarrow> n < ndigits c \<longleftrightarrow> 10 ^ n \<le> c"
  using ndigits_le_iff [of n c] by auto

lemma ndigits_lower: "0 < c \<Longrightarrow> 10 ^ (ndigits c - 1) \<le> c"
proof (cases "ndigits c = 1")
  case True
  assume "0 < c" with True show ?thesis by simp
next
  case False
  assume "0 < c"
  have "0 < ndigits c - 1" using False ndigits_pos [of c] by simp
  then show ?thesis using ndigits_gt_iff [of "ndigits c - 1" c] ndigits_pos [of c] by simp
qed

lemma ndigits_upper: "c < 10 ^ ndigits c"
  using ndigits_le_iff [of "ndigits c" c] ndigits_pos [of c] by simp

lemma ndigits_unique: "0 < n \<Longrightarrow> 10 ^ (n - 1) \<le> c \<Longrightarrow> c < 10 ^ n \<Longrightarrow> ndigits c = n"
proof -
  assume n: "0 < n" and lo: "10 ^ (n - 1) \<le> c" and hi: "c < 10 ^ n"
  have le: "ndigits c \<le> n" using ndigits_le_iff [OF n] hi by simp
  show ?thesis
  proof (cases "n = 1")
    case True with le ndigits_pos [of c] show ?thesis by simp
  next
    case False
    then have "0 < n - 1" using n by simp
    then have "n - 1 < ndigits c" using ndigits_gt_iff [of "n - 1" c] lo by simp
    with le show ?thesis by simp
  qed
qed

lemma ndigits_mult_pow: "0 < c \<Longrightarrow> ndigits (c * 10 ^ j) = ndigits c + j"
proof -
  assume c: "0 < c"
  have lo: "10 ^ (ndigits c - 1) \<le> c" by (rule ndigits_lower [OF c])
  have hi: "c < 10 ^ ndigits c" by (rule ndigits_upper)
  have "10 ^ (ndigits c + j - 1) = (10::nat) ^ (ndigits c - 1) * 10 ^ j"
    using ndigits_pos [of c] by (simp flip: power_add)
  also have "\<dots> \<le> c * 10 ^ j" using lo by simp
  finally have 1: "10 ^ (ndigits c + j - 1) \<le> c * 10 ^ j" .
  have 2: "c * 10 ^ j < 10 ^ (ndigits c + j)"
    using hi by (simp add: power_add)
  show ?thesis
    by (rule ndigits_unique [OF _ 1 2]) (simp add: ndigits_pos)
qed

lemma rhe_div_lower: "c div 10 ^ k \<le> rhe_div c k"
  by (simp add: rhe_div_def Let_def)

lemma rhe_div_upper: "rhe_div c k \<le> c div 10 ^ k + 1"
  by (simp add: rhe_div_def Let_def)

lemma rhe_div_exact: "rhe_div (c * 10 ^ k) k = c"
  by (simp add: rhe_div_def Let_def)

lemma rhe_div_pad: "rhe_div (c * 10 ^ j) (k + j) = rhe_div c k"
proof -
  have d: "(c * 10 ^ j) div (10 ^ (k + j)) = c div 10 ^ k"
    by (simp add: power_add)
  have m: "(c * 10 ^ j) mod (10 ^ (k + j)) = (c mod 10 ^ k) * 10 ^ j"
    by (simp add: power_add)
  have p: "(10::nat) ^ (k + j) = 10 ^ k * 10 ^ j" by (simp add: power_add)
  show ?thesis
    unfolding rhe_div_def Let_def d m
    unfolding p by (simp add: mult.assoc [symmetric])
qed

lemma rhe_div_bound: "c < 10 ^ (n + k) \<Longrightarrow> rhe_div c k \<le> 10 ^ n"
proof -
  assume "c < 10 ^ (n + k)"
  then have "c div 10 ^ k < 10 ^ n"
    by (intro less_mult_imp_div_less) (simp add: power_add)
  with rhe_div_upper [of c k] show ?thesis by simp
qed

lemma sgn_abs_int: "sgn c * int (nat \<bar>c\<bar>) = (c::int)"
  by (simp add: sgn_if)

lemma dec_fix_in_prec: "in_prec d \<Longrightarrow> dec_fix d = d"
  by (simp add: in_prec_def dec_fix_def Let_def)

lemma rhe_div_round: 
  assumes "prec < ndigits c"
  shows "rhe_div c (ndigits c - prec) \<le> 10 ^ prec"
proof -
  have "c < 10 ^ (prec + (ndigits c - prec))"
    using ndigits_upper [of c] assms by simp
  then show ?thesis by (rule rhe_div_bound)
qed

lemma rhe_div_round_lower: 
  assumes "prec < ndigits c"
  shows "10 ^ (prec - 1) \<le> rhe_div c (ndigits c - prec)"
proof -
  have c: "0 < c" using assms ndigits.simps [of 0] by (cases "c = 0") (simp_all add: prec_def)
  have e: "(prec - 1) + (ndigits c - prec) = ndigits c - 1"
    using assms by (simp add: prec_def)
  have "(10::nat) ^ (prec - 1) * 10 ^ (ndigits c - prec) = 10 ^ ((prec - 1) + (ndigits c - prec))"
    by (simp only: power_add)
  also have "\<dots> = 10 ^ (ndigits c - 1)" by (simp only: e)
  also have "\<dots> \<le> c" by (rule ndigits_lower [OF c])
  finally have "10 ^ (prec - 1) \<le> c div 10 ^ (ndigits c - prec)"
    by (simp add: less_eq_div_iff_mult_less_eq)
  with rhe_div_lower [of c "ndigits c - prec"] show ?thesis by simp
qed

lemma dec_val_fix_big:
  assumes "\<not> in_prec d"
  shows "dec_val (dec_fix d) =
           of_int (sgn (coef d)) * of_nat (rhe_div (nat \<bar>coef d\<bar>) (ndigits (nat \<bar>coef d\<bar>) - prec)) *
           10 powi (expo d + int (ndigits (nat \<bar>coef d\<bar>) - prec))"
proof -
  define c where "c = nat \<bar>coef d\<bar>"
  define k where "k = ndigits c - prec"
  define q where "q = rhe_div c k"
  have big: "prec < ndigits c" using assms by (simp add: in_prec_def c_def)
  have qle: "q \<le> 10 ^ prec" unfolding q_def k_def by (rule rhe_div_round [OF big])
  show ?thesis
  proof (cases "prec < ndigits q")
    case True
    then have "10 ^ prec \<le> q" using ndigits_gt_iff [of prec q] by (simp add: prec_def)
    with qle have q: "q = 10 ^ prec" by simp
    have "dec_fix d = Dec (sgn (coef d) * int (q div 10)) (expo d + int k + 1)"
      using big True by (simp add: dec_fix_def Let_def c_def k_def q_def)
    moreover have "(of_nat (q div 10) :: rat) * 10 powi (expo d + int k + 1) = of_nat q * 10 powi (expo d + int k)"
      unfolding q by (simp add: prec_def power_int_add)
    ultimately show ?thesis
      by (simp add: dec_val_def c_def [symmetric] k_def [symmetric] q_def [symmetric] mult.assoc)
  next
    case False
    then have "dec_fix d = Dec (sgn (coef d) * int q) (expo d + int k)"
      using big by (simp add: dec_fix_def Let_def c_def k_def q_def)
    then show ?thesis
      by (simp add: dec_val_def c_def [symmetric] k_def [symmetric] q_def [symmetric])
  qed
qed

lemma dec_fix_result_in_prec: "in_prec (dec_fix d)"
proof (cases "in_prec d")
  case True
  then show ?thesis by (simp add: dec_fix_in_prec)
next
  case False
  define c where "c = nat \<bar>coef d\<bar>"
  define k where "k = ndigits c - prec"
  define q where "q = rhe_div c k"
  have big: "prec < ndigits c" using False by (simp add: in_prec_def c_def)
  have qle: "q \<le> 10 ^ prec" unfolding q_def k_def by (rule rhe_div_round [OF big])
  have abs1: "\<bar>sgn (coef d) * int n\<bar> = int n" for n
    using big ndigits.simps [of 0] by (cases "coef d = 0") (auto simp: c_def prec_def abs_mult)
  show ?thesis
  proof (cases "prec < ndigits q")
    case True
    then have "10 ^ prec \<le> q" using ndigits_gt_iff [of prec q] by (simp add: prec_def)
    with qle have q: "q = 10 ^ prec" by simp
    have "dec_fix d = Dec (sgn (coef d) * int (q div 10)) (expo d + int k + 1)"
      using big True by (simp add: dec_fix_def Let_def c_def k_def q_def)
    moreover have "ndigits (q div 10) \<le> prec"
      unfolding q by (simp add: ndigits_le_iff prec_def)
    ultimately show ?thesis by (simp add: in_prec_def abs1)
  next
    case F: False
    then have "dec_fix d = Dec (sgn (coef d) * int q) (expo d + int k)"
      using big by (simp add: dec_fix_def Let_def c_def k_def q_def)
    then show ?thesis using F by (simp add: in_prec_def abs1)
  qed
qed

lemma dec_val_pad: "dec_val (Dec (c * 10 ^ j) (e - int j)) = dec_val (Dec c e)"
  by (simp add: dec_val_def power_int_diff)

lemma dec_fix_pad:
  "dec_val (dec_fix (Dec (c * 10 ^ j) (e - int j))) = dec_val (dec_fix (Dec c e))"
proof (cases "c = 0")
  case True
  have "in_prec (Dec 0 x)" for x
    by (simp add: in_prec_def ndigits.simps [of 0] prec_def)
  with True show ?thesis by (simp add: dec_fix_in_prec dec_val_def)
next
  case False
  define a where "a = nat \<bar>c\<bar>"
  define n where "n = ndigits a"
  have a: "0 < a" using False by (simp add: a_def)
  have pa: "nat \<bar>c * 10 ^ j\<bar> = a * 10 ^ j"
    by (simp add: a_def abs_mult nat_mult_distrib nat_power_eq)
  have pn: "ndigits (a * 10 ^ j) = n + j"
    unfolding n_def by (rule ndigits_mult_pow [OF a])
  have sg: "sgn (c * 10 ^ j) = sgn c" by (simp add: sgn_mult)
  show ?thesis
  proof (cases "n + j \<le> prec")
    case True
    then have "in_prec (Dec (c * 10 ^ j) (e - int j))" "in_prec (Dec c e)"
      by (simp_all add: in_prec_def pa pn a_def [symmetric] n_def [symmetric])
    then show ?thesis by (simp add: dec_fix_in_prec dec_val_pad)
  next
    case big: False
    then have np: "\<not> in_prec (Dec (c * 10 ^ j) (e - int j))"
      by (simp add: in_prec_def pa pn)
    show ?thesis
    proof (cases "n \<le> prec")
      case True
      then have ip: "in_prec (Dec c e)"
        by (simp add: in_prec_def a_def [symmetric] n_def [symmetric])
      define k where "k = n + j - prec"
      have kj: "k \<le> j" using True by (simp add: k_def)
      have p: "(10::nat) ^ j = 10 ^ (j - k) * 10 ^ k"
        using kj by (simp flip: power_add)
      have q: "rhe_div (a * 10 ^ j) k = a * 10 ^ (j - k)"
        unfolding p mult.assoc [symmetric] by (rule rhe_div_exact)
      have pw: "(10::rat) powi (e - int j + int k) = 10 powi e / 10 ^ (j - k)"
        using kj by (simp add: power_int_diff power_int_add flip: power_int_of_nat)
      have "dec_val (dec_fix (Dec (c * 10 ^ j) (e - int j))) =
              of_int (sgn c) * of_nat (a * 10 ^ (j - k)) * 10 powi (e - int j + int k)"
        using dec_val_fix_big [OF np] by (simp add: pa pn k_def [symmetric] q sg)
      also have "\<dots> = of_int (sgn c * int a) * 10 powi e"
        unfolding pw by simp
      also have "\<dots> = dec_val (Dec c e)"
        unfolding a_def sgn_abs_int by (simp add: dec_val_def)
      finally show ?thesis using ip by (simp add: dec_fix_in_prec)
    next
      case False
      then have nip: "\<not> in_prec (Dec c e)"
        by (simp add: in_prec_def a_def [symmetric] n_def [symmetric])
      have k: "n + j - prec = (n - prec) + j" using False by simp
      show ?thesis
        using dec_val_fix_big [OF np] dec_val_fix_big [OF nip]
        by (simp add: pa pn a_def [symmetric] n_def [symmetric] k rhe_div_pad sg)
    qed
  qed
qed

lemma dec_fix_cong_le:
  assumes v: "dec_val x = dec_val y" and le: "expo x \<le> expo y"
  shows "dec_val (dec_fix x) = dec_val (dec_fix y)"
proof -
  define j where "j = nat (expo y - expo x)"
  have ex: "expo x = expo y - int j" using le by (simp add: j_def)
  have "rat_of_int (coef x) * 10 powi expo x = of_int (coef y) * 10 powi expo y"
    using v by (simp add: dec_val_def)
  then have "rat_of_int (coef x) = of_int (coef y) * (10 powi expo y / 10 powi expo x)"
    by (simp add: field_simps)
  also have "10 powi expo y / 10 powi expo x = (10::rat) ^ j"
    unfolding ex by (simp add: power_int_diff)
  finally have "rat_of_int (coef x) = of_int (coef y * 10 ^ j)" by simp
  then have "coef x = coef y * 10 ^ j" by (simp only: of_int_eq_iff)
  then have "x = Dec (coef y * 10 ^ j) (expo y - int j)"
    using ex by (cases x) simp
  then show ?thesis using dec_fix_pad [of "coef y" j "expo y"] by simp
qed

lemma dec_fix_cong: "dec_val x = dec_val y \<Longrightarrow> dec_val (dec_fix x) = dec_val (dec_fix y)"
  using dec_fix_cong_le [of x y] dec_fix_cong_le [of y x] by (cases "expo x \<le> expo y") auto

lemma dec_val_aligned:
  "dec_val (Dec (coef x * 10 ^ nat (expo x - min (expo x) (expo y)) +
                 coef y * 10 ^ nat (expo y - min (expo x) (expo y))) (min (expo x) (expo y))) =
   dec_val x + dec_val y"
proof -
  define e where "e = min (expo x) (expo y)"
  have 1: "10 powi e * (10::rat) ^ nat (expo x - e) = 10 powi expo x"
    by (simp add: e_def power_int_add [symmetric] flip: power_int_of_nat)
  have 2: "10 powi e * (10::rat) ^ nat (expo y - e) = 10 powi expo y"
    by (simp add: e_def power_int_add [symmetric] flip: power_int_of_nat)
  show ?thesis
    unfolding e_def [symmetric]
    by (simp add: dec_val_def algebra_simps 1 2)
qed

lemma dec_add_cong:
  "dec_val x = dec_val x' \<Longrightarrow> dec_val y = dec_val y' \<Longrightarrow>
     dec_val (dec_add x y) = dec_val (dec_add x' y')"
  unfolding dec_add_def Let_def
  by (rule dec_fix_cong) (simp only: dec_val_aligned)

lemma dec_add_zero_left:
  "is_zero x \<Longrightarrow> dec_val (dec_add x y) = dec_val (dec_fix y)"
  unfolding dec_add_def Let_def
  by (rule dec_fix_cong) (simp add: dec_val_aligned, simp add: dec_val_def is_zero_def)

lemma dec_add_zero_right:
  "is_zero y \<Longrightarrow> dec_val (dec_add x y) = dec_val (dec_fix x)"
  unfolding dec_add_def Let_def
  by (rule dec_fix_cong) (simp add: dec_val_aligned, simp add: dec_val_def is_zero_def)

lemma dec_add_in_prec: "in_prec (dec_add x y)"
  by (simp add: dec_add_def Let_def dec_fix_result_in_prec)

lemma is_zero_val: "is_zero x \<longleftrightarrow> dec_val x = 0"
  by (simp add: is_zero_def dec_val_def)

lemma trunc_keeps_lower:
  assumes le: "cx * 10 ^ j \<le> cs" and big: "prec < ndigits cs" and cx: "cx < 10 ^ prec"
  shows "cx * 10 ^ j \<le> (cs div 10 ^ (ndigits cs - prec)) * 10 ^ (ndigits cs - prec)"
proof -
  define k where "k = ndigits cs - prec"
  show ?thesis
  proof (cases "k \<le> j")
    case True
    then have p: "(10::nat) ^ j = 10 ^ (j - k) * 10 ^ k" by (simp flip: power_add)
    have "(cx * 10 ^ (j - k)) * 10 ^ k \<le> cs" using le unfolding p by (simp add: mult.assoc)
    then have "cx * 10 ^ (j - k) \<le> cs div 10 ^ k"
      by (simp add: less_eq_div_iff_mult_less_eq)
    then have "(cx * 10 ^ (j - k)) * 10 ^ k \<le> (cs div 10 ^ k) * 10 ^ k"
      by (rule mult_le_mono1)
    then show ?thesis unfolding k_def [symmetric] p by (simp add: mult.assoc)
  next
    case False
    then have jk: "j < k" by simp
    have cs: "0 < cs" using big ndigits.simps [of 0] by (cases "cs = 0") (simp_all add: prec_def)
    have e: "(prec - 1) + k = ndigits cs - 1" using big by (simp add: k_def prec_def)
    have e2: "prec + j \<le> ndigits cs - 1" using jk big by (simp add: k_def)
    have "cx * 10 ^ j < 10 ^ prec * 10 ^ j" using cx by simp
    also have "\<dots> = 10 ^ (prec + j)" by (simp only: power_add)
    also have "\<dots> \<le> 10 ^ (ndigits cs - 1)" using e2 by (intro power_increasing) simp_all
    finally have x: "cx * 10 ^ j < 10 ^ (ndigits cs - 1)" .
    have "(10::nat) ^ (prec - 1) * 10 ^ k = 10 ^ (ndigits cs - 1)"
      by (simp only: e flip: power_add)
    moreover have "10 ^ (ndigits cs - 1) \<le> cs" by (rule ndigits_lower [OF cs])
    ultimately have "10 ^ (prec - 1) \<le> cs div 10 ^ k"
      by (simp add: less_eq_div_iff_mult_less_eq)
    then have "10 ^ (prec - 1) * 10 ^ k \<le> (cs div 10 ^ k) * 10 ^ k"
      by (rule mult_le_mono1)
    then have "10 ^ (ndigits cs - 1) \<le> (cs div 10 ^ k) * 10 ^ k"
      by (simp only: e flip: power_add)
    with x show ?thesis unfolding k_def [symmetric] by simp
  qed
qed

lemma dec_fix_nonneg: "0 \<le> coef d \<Longrightarrow> 0 \<le> coef (dec_fix d)"
  by (simp add: dec_fix_def Let_def sgn_if)

lemma dec_add_nonneg: "0 \<le> coef x \<Longrightarrow> 0 \<le> coef y \<Longrightarrow> 0 \<le> coef (dec_add x y)"
  by (simp add: dec_add_def Let_def dec_fix_nonneg)

lemma dec_val_nonneg: "0 \<le> coef d \<longleftrightarrow> 0 \<le> dec_val d"
proof -
  have "(0::rat) < 10 powi expo d" by simp
  then have "\<not> (10::rat) powi expo d \<le> 0" by (simp only: not_le)
  then show ?thesis
    by (simp add: dec_val_def zero_le_mult_iff)
qed

lemma dec_add_increases:
  assumes ip: "in_prec x" and x0: "0 \<le> coef x" and y0: "0 \<le> coef y"
  shows "dec_val x \<le> dec_val (dec_add x y)"
proof -
  define e where "e = min (expo x) (expo y)"
  define j where "j = nat (expo x - e)"
  define j' where "j' = nat (expo y - e)"
  define s where "s = Dec (coef x * 10 ^ j + coef y * 10 ^ j') e"
  have add: "dec_add x y = dec_fix s"
    by (simp add: dec_add_def Let_def s_def e_def j_def j'_def)
  have vs: "dec_val s = dec_val x + dec_val y"
    unfolding s_def j_def j'_def e_def by (rule dec_val_aligned)
  show ?thesis
  proof (cases "in_prec s")
    case True
    then show ?thesis using y0 by (simp add: add dec_fix_in_prec vs dec_val_nonneg)
  next
    case False
    define cx where "cx = nat (coef x)"
    define cs where "cs = cx * 10 ^ j + nat (coef y) * 10 ^ j'"
    define k where "k = ndigits cs - prec"
    have cs_int: "coef s = int cs"
      using x0 y0 by (simp add: s_def cs_def cx_def)
    then have ncs: "nat \<bar>coef s\<bar> = cs" by simp
    have big: "prec < ndigits cs" using False by (simp add: in_prec_def ncs)
    have pos: "0 < cs" using big ndigits.simps [of 0] by (cases "cs = 0") (simp_all add: prec_def)
    have cxp: "cx < 10 ^ prec"
      using ip x0 ndigits_le_iff [of prec cx] by (simp add: in_prec_def cx_def prec_def)
    have "cx * 10 ^ j \<le> cs" by (simp add: cs_def)
    then have 1: "cx * 10 ^ j \<le> (cs div 10 ^ k) * 10 ^ k"
      unfolding k_def by (rule trunc_keeps_lower [OF _ big cxp])
    have "(cs div 10 ^ k) * 10 ^ k \<le> rhe_div cs k * 10 ^ k"
      by (rule mult_le_mono1) (rule rhe_div_lower)
    with 1 have 2: "cx * 10 ^ j \<le> rhe_div cs k * 10 ^ k" by (rule le_trans)
    have ex: "expo x = e + int j" by (simp add: j_def e_def)
    have "dec_val x = of_nat (cx * 10 ^ j) * 10 powi e"
      using x0 by (simp add: dec_val_def cx_def ex power_int_add mult.assoc mult.commute)
    also have "\<dots> \<le> of_nat (rhe_div cs k * 10 ^ k) * 10 powi e"
      using 2 by (intro mult_right_mono) (simp_all only: of_nat_le_iff, simp)
    also have "\<dots> = of_nat (rhe_div cs k) * 10 powi (e + int k)"
      by (simp add: power_int_add mult.assoc mult.commute)
    also have "\<dots> = dec_val (dec_fix s)"
    proof -
      have es: "expo s = e" by (simp add: s_def)
      have sg: "sgn (coef s) = 1" using pos cs_int by simp
      show ?thesis
        using dec_val_fix_big [OF False] by (simp add: ncs k_def [symmetric] es sg)
    qed
    finally show ?thesis by (simp add: add)
  qed
qed

section \<open>Properties of the segmenter\<close>

lemma concat_split_loop:
  "concat (split_loop lines blocks current) = concat blocks @ current @ lines"
  by (induction lines arbitrary: blocks current) auto

text \<open>
  Claim C3. For every finite sequence of lines, the blocks of \<open>split_blocks\<close>, concatenated
  in block order, are the original sequence of lines.
\<close>

theorem C3_split_blocks_lossless: "concat (split_blocks lines) = lines"
  by (simp add: split_blocks_def concat_split_loop)

section \<open>Properties of the balance detector\<close>

lemma detect_None_iff:
  "detect_current_wallet_balance lines = None \<longleftrightarrow>
     (\<forall>l\<in>set lines. length (extract_amounts l) < 3)"
  by (induction lines) (auto simp: Let_def)

lemma detect_first:
  "\<forall>p\<in>set pre. length (extract_amounts p) < 3 \<Longrightarrow> 3 \<le> length (extract_amounts l) \<Longrightarrow>
     detect_current_wallet_balance (pre @ l # post) = Some (extract_amounts l ! 2)"
  by (induction pre) (auto simp: Let_def)

lemma extract_balance_example:
  "extract_amounts balance_example = [Dec 7680 (- 2), Dec 3137 (- 2), Dec 0 (- 2)]"
  by (simp add: ev)

lemma extract_plus_line: "extract_amounts plus_line = [Dec 12800 (- 2)]"
  by (simp add: ev)

text \<open>
  Claim C7. The balance detector returns \<open>None\<close> exactly when no line has three or more
  amounts. Otherwise it returns the third amount of the first line that has at least
  three: of the line \<open>l\<close> when every line before \<open>l\<close> has fewer than three. The example
  line of the specification has the amounts 76.80, 31.37 and 0.00; as the first line with
  three amounts it makes the detector return 0.00.
\<close>

theorem C7_balance_detector:
  "(detect_current_wallet_balance lines = None \<longleftrightarrow>
      (\<forall>l\<in>set lines. length (extract_amounts l) < 3)) \<and>
   (\<forall>pre l post.
      lines = pre @ l # post \<and> (\<forall>p\<in>set pre. length (extract_amounts p) < 3) \<and>
      3 \<le> length (extract_amounts l) \<longrightarrow>
      detect_current_wallet_balance lines = Some (extract_amounts l ! 2)) \<and>
   extract_amounts balance_example = [Dec 7680 (- 2), Dec 3137 (- 2), Dec 0 (- 2)] \<and>
   ((\<forall>p\<in>set pre. length (extract_amounts p) < 3) \<longrightarrow>
      detect_current_wallet_balance (pre @ balance_example # post) = Some (Dec 0 (- 2)))"
  using detect_first [of pre balance_example post]
  by (auto simp: detect_None_iff detect_first extract_balance_example)

theorem C7_balance_detector_witness:
  "detect_current_wallet_balance [plus_line, balance_example, plus_line] = Some (Dec 0 (- 2)) \<and>
   detect_current_wallet_balance [plus_line] = None"
proof -
  have 1: "\<forall>p\<in>set [plus_line]. length (extract_amounts p) < 3"
    by (simp add: extract_plus_line)
  have "detect_current_wallet_balance ([plus_line] @ balance_example # [plus_line]) =
          Some (Dec 0 (- 2))"
    using C7_balance_detector [of _ "[plus_line]" "[plus_line]"] 1 by blast
  moreover have "detect_current_wallet_balance [plus_line] = None"
    using C7_balance_detector [of "[plus_line]"] 1 by blast
  ultimately show ?thesis by simp
qed

section \<open>Properties of the classifier and of the marketplace income\<close>

text \<open>
  Claim C2, as the code has it. A block is a marketplace block exactly when some line
  contains the marketplace marker, some line contains the funds marker, and some line
  contains a plus directly followed by one of the two glyphs; the three lines may differ.
  No amount has to follow the glyph.
\<close>

theorem C2_is_market_block_adjacent:
  "is_market_block block \<longleftrightarrow>
     (\<exists>l\<in>set block. py_in market_marker l) \<and>
     (\<exists>l\<in>set block. py_in funds_marker l) \<and>
     (\<exists>l\<in>set block. py_in [ch_plus, ch_yen] l \<or> py_in [ch_plus, ch_fullwidth_yen] l)"
  by (simp add: is_market_block_def Let_def list_ex_iff has_plus_glyph_def)

text \<open>
  Claim C2 as stated fails in both directions. A block whose only credit is written
  \<open>+ G128.00\<close>, with a space after the plus, has the two markers and a positive-signed
  token, and is not a marketplace block. A block whose third line is a plus and a glyph
  with no amount has no positive-signed token, and is a marketplace block.
\<close>

theorem C2_is_market_block_counterexample:
  "(list_ex (py_in market_marker) [market_marker, funds_marker, spaced_plus_line] \<and>
    list_ex (py_in funds_marker) [market_marker, funds_marker, spaced_plus_line] \<and>
    list_ex contains_plus_token [market_marker, funds_marker, spaced_plus_line] \<and>
    \<not> is_market_block [market_marker, funds_marker, spaced_plus_line]) \<and>
   (is_market_block [market_marker, funds_marker, [ch_plus, ch_yen]] \<and>
    \<not> list_ex contains_plus_token [market_marker, funds_marker, [ch_plus, ch_yen]])"
  by (simp add: ev)

lemma foldl_market_token:
  "foldl market_token acc gs = foldl dec_add acc (List.map_filter token_amount gs)"
  by (induction gs arbitrary: acc)
    (auto simp: market_token_def split: option.splits)

lemma foldl_market_line:
  "foldl market_line acc block = foldl dec_add acc (concat (map plus_amounts block))"
  by (induction block arbitrary: acc)
    (auto simp: market_line_def plus_amounts_def foldl_market_token)

lemma snd_calc:
  "snd (calc_external_for_block block) =
     (if is_market_block block then py_sum (concat (map plus_amounts block)) else Dec 0 0)"
  by (simp add: calc_external_for_block_def Let_def foldl_market_line py_sum_def)

text \<open>
  Claim C10. A block in which no line has a plus directly before a glyph is not a
  marketplace block and its marketplace income is 0. The scan that sums the income does
  accept white space between the plus and the glyph: on the line \<open>+ G128.00\<close> the loop
  body adds 128.00.
\<close>

theorem C10_adjacency_required:
  "((\<forall>l\<in>set block. \<not> py_in [ch_plus, ch_yen] l \<and> \<not> py_in [ch_plus, ch_fullwidth_yen] l) \<longrightarrow>
      \<not> is_market_block block \<and> snd (calc_external_for_block block) = Dec 0 0) \<and>
   market_line (Dec 0 0) spaced_plus_line = Dec 12800 (- 2)"
proof -
  have "market_line (Dec 0 0) spaced_plus_line = Dec 12800 (- 2)"
    by (simp add: ev)
  then show ?thesis
    by (auto simp: snd_calc is_market_block_def Let_def list_ex_iff has_plus_glyph_def)
qed

theorem C10_adjacency_required_witness:
  "\<not> is_market_block [market_marker, funds_marker, spaced_plus_line] \<and>
   snd (calc_external_for_block [market_marker, funds_marker, spaced_plus_line]) = Dec 0 0"
proof -
  have "\<forall>l\<in>set [market_marker, funds_marker, spaced_plus_line].
          \<not> py_in [ch_plus, ch_yen] l \<and> \<not> py_in [ch_plus, ch_fullwidth_yen] l"
    by (simp add: ev)
  then show ?thesis
    using C10_adjacency_required [of "[market_marker, funds_marker, spaced_plus_line]"]
    by blast
qed

section \<open>Non-negative contributions and growing totals\<close>

lemma Decimal_str_nonneg: "Decimal_str s = Some d \<Longrightarrow> 0 \<le> coef d"
  by (auto simp: Decimal_str_def Let_def split: if_splits option.splits)

lemma token_amount_nonneg: "token_amount g = Some d \<Longrightarrow> 0 \<le> coef d"
  by (simp add: token_amount_def Decimal_str_nonneg)

lemma map_filter_nonneg: "d \<in> set (List.map_filter token_amount gs) \<Longrightarrow> 0 \<le> coef d"
  by (induction gs) (auto simp: token_amount_nonneg split: option.splits)

lemma extract_amounts_nonneg: "d \<in> set (extract_amounts l) \<Longrightarrow> 0 \<le> coef d"
  unfolding extract_amounts_def by (rule map_filter_nonneg)

lemma foldl_dec_add_nonneg:
  "0 \<le> coef acc \<Longrightarrow> \<forall>d\<in>set ds. 0 \<le> coef d \<Longrightarrow> 0 \<le> coef (foldl dec_add acc ds)"
  by (induction ds arbitrary: acc) (simp_all add: dec_add_nonneg)

lemma py_sum_nonneg: "\<forall>d\<in>set ds. 0 \<le> coef d \<Longrightarrow> 0 \<le> coef (py_sum ds)"
  unfolding py_sum_def by (rule foldl_dec_add_nonneg) simp_all

lemma line_sum_nonneg: "0 \<le> coef (py_sum (extract_amounts l))"
  by (rule py_sum_nonneg) (simp add: extract_amounts_nonneg)

lemma step1_line_nonneg: "0 \<le> coef acc \<Longrightarrow> 0 \<le> coef (step1_line acc l)"
  by (simp add: step1_line_def Let_def dec_add_nonneg line_sum_nonneg)

lemma step2_line_nonneg: "0 \<le> coef acc \<Longrightarrow> 0 \<le> coef (step2_line acc l)"
  by (simp add: step2_line_def Let_def dec_add_nonneg line_sum_nonneg)

lemma foldl_step1_nonneg: "0 \<le> coef acc \<Longrightarrow> 0 \<le> coef (foldl step1_line acc b)"
  by (induction b arbitrary: acc) (simp_all add: step1_line_nonneg)

lemma foldl_step2_nonneg: "0 \<le> coef acc \<Longrightarrow> 0 \<le> coef (foldl step2_line acc b)"
  by (induction b arbitrary: acc) (simp_all add: step2_line_nonneg)

lemma step3_line_nonneg:
  "(\<forall>d. best = Some d \<longrightarrow> 0 \<le> coef d) \<Longrightarrow> step3_line best l = Some d' \<Longrightarrow> 0 \<le> coef d'"
  using extract_amounts_nonneg [of _ l]
  by (auto simp: step3_line_def split: if_splits list.splits option.splits)

lemma foldl_step3_nonneg:
  "(\<forall>d. best = Some d \<longrightarrow> 0 \<le> coef d) \<Longrightarrow> foldl step3_line best b = Some d' \<Longrightarrow> 0 \<le> coef d'"
proof (induction b arbitrary: best)
  case Nil
  then show ?case by simp
next
  case (Cons l b)
  have "\<forall>d. step3_line best l = Some d \<longrightarrow> 0 \<le> coef d"
    using step3_line_nonneg [OF Cons.prems(1)] by blast
  then show ?case using Cons.IH [of "step3_line best l"] Cons.prems(2) by simp
qed

lemma market_line_nonneg: "0 \<le> coef acc \<Longrightarrow> 0 \<le> coef (market_line acc l)"
  unfolding market_line_def foldl_market_token
  by (rule foldl_dec_add_nonneg) (auto dest: map_filter_nonneg)

lemma foldl_market_line_nonneg: "0 \<le> coef acc \<Longrightarrow> 0 \<le> coef (foldl market_line acc b)"
  by (induction b arbitrary: acc) (simp_all add: market_line_nonneg)

lemma calc_nonneg:
  "0 \<le> coef (fst (calc_external_for_block b)) \<and> 0 \<le> coef (snd (calc_external_for_block b))"
proof -
  have z: "0 \<le> coef (Dec 0 0)" by simp
  have 3: "foldl step3_line None b = Some d \<Longrightarrow> 0 \<le> coef d" for d
    by (rule foldl_step3_nonneg [of None]) simp_all
  show ?thesis
    by (auto simp: calc_external_for_block_def Let_def dec_add_nonneg foldl_step1_nonneg
        foldl_step2_nonneg foldl_market_line_nonneg 3 split: option.splits)
qed

lemma in_prec_zero: "in_prec (Dec 0 e)"
  by (simp add: in_prec_def ndigits.simps [of 0] prec_def)

lemma add_block_fst:
  "fst (add_block t b) = dec_add (fst t) (fst (calc_external_for_block b))"
  by (simp add: add_block_def split: prod.splits)

lemma add_block_snd:
  "snd (add_block t b) = dec_add (snd t) (snd (calc_external_for_block b))"
  by (simp add: add_block_def split: prod.splits)

lemma foldl_add_block_inv:
  "in_prec (fst t) \<and> in_prec (snd t) \<and> 0 \<le> coef (fst t) \<and> 0 \<le> coef (snd t) \<Longrightarrow>
   in_prec (fst (foldl add_block t bs)) \<and> in_prec (snd (foldl add_block t bs)) \<and>
   0 \<le> coef (fst (foldl add_block t bs)) \<and> 0 \<le> coef (snd (foldl add_block t bs))"
proof (induction bs arbitrary: t)
  case Nil
  then show ?case by simp
next
  case (Cons b bs)
  have "in_prec (fst (add_block t b)) \<and> in_prec (snd (add_block t b)) \<and>
        0 \<le> coef (fst (add_block t b)) \<and> 0 \<le> coef (snd (add_block t b))"
    using Cons.prems calc_nonneg [of b]
    by (simp add: add_block_fst add_block_snd dec_add_in_prec dec_add_nonneg)
  then show ?case using Cons.IH [of "add_block t b"] by simp
qed

lemma block_totals_inv:
  "in_prec (fst (block_totals bs)) \<and> in_prec (snd (block_totals bs)) \<and>
   0 \<le> coef (fst (block_totals bs)) \<and> 0 \<le> coef (snd (block_totals bs))"
  unfolding block_totals_def by (rule foldl_add_block_inv) (simp add: in_prec_zero)

lemma block_totals_snoc: "block_totals (bs @ [b]) = add_block (block_totals bs) b"
  by (simp add: block_totals_def)

text \<open>
  Claim C8. Both contributions of a block are non-negative. The two running totals of the
  fold over the blocks never decrease in value when a further block is folded in: the
  totals after the blocks \<open>bs\<close> are at most the totals after \<open>bs\<close> and one more block. The
  additions round to 12 significant digits, and the rounded sum of a total and a
  non-negative contribution is still at least the total.
\<close>

theorem C8_contributions_nonneg_totals_monotone:
  "0 \<le> dec_val (fst (calc_external_for_block b)) \<and>
   0 \<le> dec_val (snd (calc_external_for_block b)) \<and>
   dec_val (fst (block_totals bs)) \<le> dec_val (fst (block_totals (bs @ [b]))) \<and>
   dec_val (snd (block_totals bs)) \<le> dec_val (snd (block_totals (bs @ [b])))"
proof -
  have 1: "dec_val (fst (block_totals bs)) \<le> dec_val (fst (block_totals (bs @ [b])))"
    unfolding block_totals_snoc add_block_fst
    using block_totals_inv [of bs] calc_nonneg [of b] by (intro dec_add_increases) simp_all
  have 2: "dec_val (snd (block_totals bs)) \<le> dec_val (snd (block_totals (bs @ [b])))"
    unfolding block_totals_snoc add_block_snd
    using block_totals_inv [of bs] calc_nonneg [of b] by (intro dec_add_increases) simp_all
  show ?thesis using 1 2 calc_nonneg [of b] by (simp add: dec_val_nonneg)
qed

section \<open>The marketplace income of a block\<close>







section \<open>The rounded figures of the report\<close>

lemma round_half_even_of_int [simp]: "round_half_even (of_int m) = m"
  by (simp add: round_half_even_def)

lemma round_half_even_of_nat [simp]: "round_half_even (of_nat c) = int c"
  using round_half_even_of_int [of "int c"] by simp

lemma round_half_even_zero [simp]: "round_half_even 0 = 0"
  using round_half_even_of_int [of 0] by simp

lemma round_half_even_div: "round_half_even (of_nat c / 10 ^ k) = int (rhe_div c k)"
proof -
  define p :: nat where "p = 10 ^ k"
  have p: "0 < p" by (simp add: p_def)
  have fl: "\<lfloor>rat_of_nat c / of_nat p\<rfloor> = int (c div p)"
    by (rule floor_divide_of_nat_eq)
  have c: "rat_of_nat c = of_nat (c div p) * of_nat p + of_nat (c mod p)"
    by (simp flip: of_nat_mult of_nat_add)
  have r: "rat_of_nat c / of_nat p - of_int (int (c div p)) = of_nat (c mod p) / of_nat p"
    using p by (subst c) (simp add: field_simps)
  have lt: "rat_of_nat (c mod p) / of_nat p < 1 / 2 \<longleftrightarrow> 2 * (c mod p) < p"
  proof -
    have "rat_of_nat (c mod p) / of_nat p < 1 / 2 \<longleftrightarrow> rat_of_nat (2 * (c mod p)) < of_nat p"
      using p by (simp add: field_simps)
    then show ?thesis by (simp only: of_nat_less_iff)
  qed
  have gt: "1 / 2 < rat_of_nat (c mod p) / of_nat p \<longleftrightarrow> p < 2 * (c mod p)"
  proof -
    have "1 / 2 < rat_of_nat (c mod p) / of_nat p \<longleftrightarrow> rat_of_nat p < of_nat (2 * (c mod p))"
      using p by (simp add: field_simps)
    then show ?thesis by (simp only: of_nat_less_iff)
  qed
  have "round_half_even (of_nat c / of_nat p) = int (rhe_div c k)"
    unfolding round_half_even_def Let_def fl r lt gt
    by (simp add: rhe_div_def Let_def p_def)
  then show ?thesis by (simp add: p_def)
qed

lemma val_digits_bound:
  assumes c: "0 < c" and b: "rat_of_nat c * 10 powi e < 10 ^ m"
  shows "int (ndigits c) + e \<le> int m"
proof (rule ccontr)
  assume "\<not> int (ndigits c) + e \<le> int m"
  then have le: "int m \<le> int (ndigits c - 1) + e" using ndigits_pos [of c] by simp
  have "(10::rat) ^ m = 10 powi int m" by simp
  also have "\<dots> \<le> 10 powi (int (ndigits c - 1) + e)"
    using le by (intro power_int_increasing) simp_all
  also have "\<dots> = rat_of_nat (10 ^ (ndigits c - 1)) * 10 powi e"
    by (simp add: power_int_add)
  also have "\<dots> \<le> rat_of_nat c * 10 powi e"
    using ndigits_lower [OF c] by (intro mult_right_mono) (simp_all only: of_nat_le_iff, simp)
  finally show False using b by simp
qed

lemma quantize_cents:
  assumes x0: "0 \<le> coef x" and b: "dec_val x < 10 ^ 9"
  shows "\<exists>c'. quantize x (Dec 1 (- 2)) = Inr (Dec (int c') (- 2)) \<and> c' \<le> 10 ^ 11 \<and>
              rat_of_nat c' / 100 = round2 (dec_val x)"
proof (cases "coef x = 0")
  case True
  then have "quantize x (Dec 1 (- 2)) = Inr (Dec (int 0) (- 2))"
    by (simp add: quantize_def)
  moreover have "round2 (dec_val x) = 0" using True by (simp add: round2_def dec_val_def)
  ultimately show ?thesis by (intro exI [of _ 0]) simp
next
  case False
  define c where "c = nat \<bar>coef x\<bar>"
  define e where "e = expo x"
  have c: "0 < c" using False by (simp add: c_def)
  have cx: "coef x = int c" using x0 by (simp add: c_def)
  have v: "dec_val x = rat_of_nat c * 10 powi e" by (simp add: dec_val_def cx e_def)
  have nd: "int (ndigits c) + e \<le> 9"
    using val_digits_bound [OF c, of e 9] b by (simp add: v)
  have chk: "\<not> int prec < int (ndigits c) + e - (- 2)" using nd by (simp add: prec_def)
  have sg: "sgn (coef x) = 1" using c cx by simp
  show ?thesis
  proof (cases "- 2 \<le> e")
    case True
    define c' where "c' = c * 10 ^ nat (e + 2)"
    have "(10::rat) ^ nat (e + 2) = 10 powi int (nat (e + 2))"
      by (simp only: power_int_of_nat)
    also have "\<dots> = 10 powi (e + 2)" using True by simp
    also have "\<dots> = 10 powi e * 10 powi 2" by (subst power_int_add) simp_all
    finally have p: "(10::rat) ^ nat (e + 2) = 10 powi e * 100" by simp
    have v': "rat_of_nat c' = dec_val x * 100" by (simp add: c'_def v p)
    then have "rat_of_nat c' < rat_of_nat (10 ^ 11)" using b by simp
    then have lt: "c' < 10 ^ 11" by (simp only: of_nat_less_iff)
    then have "c' < 10 ^ 12" by simp
    then have nd': "\<not> prec < ndigits c'" using ndigits_le_iff [of 12 c'] by (simp add: prec_def)
    have "quantize x (Dec 1 (- 2)) = Inr (Dec (int c') (- 2))"
      using c chk nd' True
      by (simp add: quantize_def Let_def c_def [symmetric] e_def [symmetric] c'_def sg)
    moreover have "rat_of_nat c' / 100 = round2 (dec_val x)"
      unfolding round2_def v' [symmetric] by simp
    ultimately show ?thesis using lt by (intro exI [of _ c']) simp
  next
    case False
    define k where "k = nat (- 2 - e)"
    define c' where "c' = rhe_div c k"
    have p: "10 powi e * 100 = 1 / (10::rat) ^ k"
    proof -
      have e: "e + int k + 2 = 0" using False by (simp add: k_def)
      have pa: "(10::rat) powi (m + n) = 10 powi m * 10 powi n" for m n
        by (rule power_int_add) simp
      have "(10::rat) powi e * 10 powi int k * 10 powi 2 = 10 powi (e + int k + 2)"
        by (simp only: pa)
      also have "\<dots> = 1" by (simp only: e power_int_0_right)
      finally have "(10::rat) powi e * 100 * 10 ^ k = 1" by (simp add: mult.commute mult.left_commute)
      then show ?thesis by (simp add: field_simps)
    qed
    have v': "dec_val x * 100 = rat_of_nat c / 10 ^ k"
      by (simp add: v mult.assoc p)
    have "rat_of_nat c / 10 ^ k < 10 ^ 11" using b unfolding v' [symmetric] by simp
    then have "rat_of_nat c < rat_of_nat (10 ^ 11 * 10 ^ k)" by (simp add: field_simps)
    then have "c < 10 ^ 11 * 10 ^ k" by (simp only: of_nat_less_iff)
    then have "c div 10 ^ k < 10 ^ 11" by (rule less_mult_imp_div_less)
    then have le: "c' \<le> 10 ^ 11" using rhe_div_upper [of c k] by (simp add: c'_def)
    then have "c' < 10 ^ 12" by simp
    then have nd': "\<not> prec < ndigits c'" using ndigits_le_iff [of 12 c'] by (simp add: prec_def)
    have "quantize x (Dec 1 (- 2)) = Inr (Dec (int c') (- 2))"
      using c chk nd' False
      by (simp add: quantize_def Let_def c_def [symmetric] e_def [symmetric] c'_def k_def sg)
    moreover have "rat_of_nat c' / 100 = round2 (dec_val x)"
      unfolding round2_def v' round_half_even_div c'_def by simp
    ultimately show ?thesis using le by (intro exI [of _ c']) simp
  qed
qed

lemma quantize_same_exponent:
  assumes "c < 10 ^ 12"
  shows "quantize (Dec (int c) (- 2)) (Dec 1 (- 2)) = Inr (Dec (int c) (- 2))"
proof (cases "c = 0")
  case True
  then show ?thesis by (simp add: quantize_def)
next
  case False
  have nd: "ndigits c \<le> prec" using ndigits_le_iff [of 12 c] assms by (simp add: prec_def)
  have a: "nat \<bar>int c\<bar> = c" by simp
  have sg: "sgn (int c) = 1" using False by simp
  have 1: "\<not> int prec < int (ndigits c) + - 2 - - 2" using nd by simp
  have 2: "\<not> prec < ndigits c" using nd by simp
  have m: "c * 10 ^ nat (- 2 - - 2) = c" by simp
  show ?thesis
    unfolding quantize_def Let_def a decimal.sel
    by (simp only: False 1 2 m sg if_False if_True simp_thms mult_1 order_refl)
qed

lemma round2_cents: "round2 (rat_of_nat c / 100) = rat_of_nat c / 100"
  by (simp add: round2_def)

lemma dec_mul_nine_tenths:
  assumes m0: "0 \<le> coef tm" and m9: "9 * coef tm < 10 ^ 12"
  shows "dec_mul tm (Dec 9 (- 1)) = Dec (coef tm * 9) (expo tm - 1)"
proof -
  have "nat \<bar>coef tm * 9\<bar> < 10 ^ 12" using m0 m9 by (simp add: nat_less_iff abs_mult)
  then have "in_prec (Dec (coef tm * 9) (expo tm - 1))"
    using ndigits_le_iff [of 12 "nat \<bar>coef tm * 9\<bar>"] by (simp add: in_prec_def prec_def)
  then show ?thesis by (simp add: dec_mul_def dec_fix_in_prec)
qed

lemma dec_add_cents:
  assumes "a \<le> 10 ^ 11" and "b \<le> 10 ^ 11"
  shows "dec_add (Dec (int a) (- 2)) (Dec (int b) (- 2)) = Dec (int (a + b)) (- 2)"
proof -
  have "a + b < 10 ^ 12" using assms by simp
  then have "ndigits (a + b) \<le> prec"
    using ndigits_le_iff [of 12 "a + b"] by (simp add: prec_def)
  moreover have "nat \<bar>int a + int b\<bar> = a + b" by simp
  ultimately have "in_prec (Dec (int a + int b) (- 2))"
    by (simp only: in_prec_def decimal.sel)
  then show ?thesis by (simp add: dec_add_def dec_fix_in_prec)
qed

lemma figures_rounded:
  assumes e0: "0 \<le> coef te" and m0: "0 \<le> coef tm"
    and e9: "dec_val te < 10 ^ 9" and m9: "dec_val tm < 10 ^ 9"
    and p9: "9 * coef tm < 10 ^ 12"
  shows "\<exists>cfm direct tcost.
           figures te tm = Inr (cfm, direct, tcost) \<and>
           dec_val cfm = round2 (9 / 10 * dec_val tm) \<and>
           dec_val direct = round2 (dec_val te) \<and>
           dec_val tcost = round2 (dec_val direct + dec_val cfm) \<and>
           dec_val tcost = dec_val direct + dec_val cfm"
proof -
  define m where "m = dec_mul tm (Dec 9 (- 1))"
  have m: "m = Dec (coef tm * 9) (expo tm - 1)"
    unfolding m_def by (rule dec_mul_nine_tenths [OF m0 p9])
  have pw: "(10::rat) powi (expo tm - 1) = 10 powi expo tm / 10"
    by (subst power_int_diff) simp_all
  have vm: "dec_val m = 9 / 10 * dec_val tm"
    by (simp add: m dec_val_def pw)
  have "0 \<le> dec_val tm" using m0 by (simp add: dec_val_nonneg)
  then have mb: "dec_val m < 10 ^ 9" using m9 by (simp add: vm)
  have mc: "0 \<le> coef m" using m0 by (simp add: m)
  obtain c1 where q1: "quantize m (Dec 1 (- 2)) = Inr (Dec (int c1) (- 2))"
    and b1: "c1 \<le> 10 ^ 11" and v1: "rat_of_nat c1 / 100 = round2 (dec_val m)"
    using quantize_cents [OF mc mb] by blast
  obtain c2 where q2: "quantize te (Dec 1 (- 2)) = Inr (Dec (int c2) (- 2))"
    and b2: "c2 \<le> 10 ^ 11" and v2: "rat_of_nat c2 / 100 = round2 (dec_val te)"
    using quantize_cents [OF e0 e9] by blast
  have s: "dec_add (Dec (int c2) (- 2)) (Dec (int c1) (- 2)) = Dec (int (c2 + c1)) (- 2)"
    by (rule dec_add_cents [OF b2 b1])
  have "c2 + c1 < 10 ^ 12" using b1 b2 by simp
  then have q3: "quantize (Dec (int (c2 + c1)) (- 2)) (Dec 1 (- 2)) = Inr (Dec (int (c2 + c1)) (- 2))"
    by (rule quantize_same_exponent)
  have f: "figures te tm = Inr (Dec (int c1) (- 2), Dec (int c2) (- 2), Dec (int (c2 + c1)) (- 2))"
    unfolding figures_def m_def [symmetric] q1 q2 sum.case s q3 ..
  have cents: "dec_val (Dec (int c) (- 2)) = rat_of_nat c / 100" for c
    by (simp add: dec_val_def)
  have sum: "rat_of_nat (c2 + c1) / 100 = rat_of_nat c2 / 100 + rat_of_nat c1 / 100"
    by (simp add: add_divide_distrib)
  have g1: "dec_val (Dec (int c1) (- 2)) = round2 (9 / 10 * dec_val tm)"
    by (simp only: cents v1 vm)
  have g2: "dec_val (Dec (int c2) (- 2)) = round2 (dec_val te)"
    by (simp only: cents v2)
  have g4: "dec_val (Dec (int (c2 + c1)) (- 2)) =
              dec_val (Dec (int c2) (- 2)) + dec_val (Dec (int c1) (- 2))"
    by (simp only: cents sum)
  have g3: "dec_val (Dec (int (c2 + c1)) (- 2)) =
              round2 (dec_val (Dec (int c2) (- 2)) + dec_val (Dec (int c1) (- 2)))"
    unfolding g4 [symmetric] by (simp only: cents round2_cents)
  show ?thesis
    using f g1 g2 g3 g4 by blast
qed

lemma figures_example:
  "figures (Dec 10000 (- 2)) (Dec 5000 (- 2)) = Inr (Dec 4500 (- 2), Dec 10000 (- 2), Dec 14500 (- 2))"
  by (simp add: figures_def ev)

text \<open>
  Claim C4, within the precision of the context. For non-negative totals below \<open>10^9\<close>,
  where nine times the coefficient of the market total still has at most 12 digits, the
  report is produced and its figures are exact: the cost from the market is 0.9 times the
  market total rounded to two places, the direct external spend is the external total
  rounded to two places, and the total cost is their sum, which rounding to two places
  leaves as it is. The totals 100.00 and 50.00 give 45.00, 100.00 and 145.00.
\<close>

theorem C4_report_figures:
  "(0 \<le> coef te \<and> 0 \<le> coef tm \<and> dec_val te < 10 ^ 9 \<and> dec_val tm < 10 ^ 9 \<and>
    9 * coef tm < 10 ^ 12 \<longrightarrow>
      (\<exists>cfm direct tcost.
         figures te tm = Inr (cfm, direct, tcost) \<and>
         dec_val cfm = round2 (9 / 10 * dec_val tm) \<and>
         dec_val direct = round2 (dec_val te) \<and>
         dec_val tcost = round2 (dec_val direct + dec_val cfm) \<and>
         dec_val tcost = dec_val direct + dec_val cfm)) \<and>
   figures (Dec 10000 (- 2)) (Dec 5000 (- 2)) =
     Inr (Dec 4500 (- 2), Dec 10000 (- 2), Dec 14500 (- 2))"
  using figures_rounded [of te tm] figures_example by blast

text \<open>
  Claim C4 as stated, for all totals and exact arithmetic, fails. The block with the two
  markers and a credit of 200000000.794 gives the market total 200000000.794. The exact
  product 180000000.7146 rounds to 180000000.71; the script first rounds the product to
  12 digits, 180000000.715, and then to two places, 180000000.72. For a market total of
  20000000000 the rounding to two places raises and no figure is reported.
\<close>

theorem C4_report_figures_counterexample:
  "block_totals (split_blocks [market_marker, funds_marker, big_credit_line]) =
     (Dec 0 0, Dec 200000000794 (- 3)) \<and>
   figures (Dec 0 0) (Dec 200000000794 (- 3)) =
     Inr (Dec 18000000072 (- 2), Dec 0 (- 2), Dec 18000000072 (- 2)) \<and>
   round2 (9 / 10 * dec_val (Dec 200000000794 (- 3))) = 18000000071 / 100 \<and>
   dec_val (Dec 18000000072 (- 2)) = 18000000072 / 100 \<and>
   figures (Dec 0 0) (Dec 20000000000 0) = Inl InvalidOperation"
proof -
  have 1: "split_blocks [market_marker, funds_marker, big_credit_line] =
             [[market_marker, funds_marker, big_credit_line]]"
    by (simp add: split_blocks_def is_date_line_def strip_def lstrip_def rstrip_def
        date_pattern_match_def big_credit_line_def ev)
  have 2: "calc_external_for_block [market_marker, funds_marker, big_credit_line] =
             (Dec 0 0, Dec 200000000794 (- 3))"
    by (simp add: big_credit_line_def ev)
  have 3: "block_totals [[market_marker, funds_marker, big_credit_line]] =
             (Dec 0 0, Dec 200000000794 (- 3))"
    unfolding block_totals_def by (simp add: add_block_def 2) (simp add: ev)
  have 4: "figures (Dec 0 0) (Dec 200000000794 (- 3)) =
     Inr (Dec 18000000072 (- 2), Dec 0 (- 2), Dec 18000000072 (- 2))"
    by (simp add: figures_def ev)
  have "9 / 10 * dec_val (Dec 200000000794 (- 3)) * 100 = rat_of_nat 1800000007146 / 10 ^ 2"
    by (simp add: dec_val_def)
  then have "round_half_even (9 / 10 * dec_val (Dec 200000000794 (- 3)) * 100) =
               int (rhe_div 1800000007146 2)"
    by (simp only: round_half_even_div)
  also have "\<dots> = 18000000071" by (simp add: rhe_div_def)
  finally have 5: "round2 (9 / 10 * dec_val (Dec 200000000794 (- 3))) = 18000000071 / 100"
    by (simp add: round2_def)
  have 6: "dec_val (Dec 18000000072 (- 2)) = 18000000072 / 100"
    by (simp add: dec_val_def)
  have 7: "figures (Dec 0 0) (Dec 20000000000 0) = Inl InvalidOperation"
    by (simp add: figures_def ev)
  show ?thesis using 1 3 4 5 6 7 by simp
qed

theorem C4_report_figures_witness:
  "\<exists>cfm direct tcost.
     figures (Dec 5900 (- 2)) (Dec 12800 (- 2)) = Inr (cfm, direct, tcost) \<and>
     dec_val cfm = round2 (9 / 10 * dec_val (Dec 12800 (- 2))) \<and>
     dec_val direct = round2 (dec_val (Dec 5900 (- 2))) \<and>
     dec_val tcost = dec_val direct + dec_val cfm"
proof -
  have "0 \<le> coef (Dec 5900 (- 2)) \<and> 0 \<le> coef (Dec 12800 (- 2)) \<and>
        dec_val (Dec 5900 (- 2)) < 10 ^ 9 \<and> dec_val (Dec 12800 (- 2)) < 10 ^ 9 \<and>
        9 * coef (Dec 12800 (- 2)) < 10 ^ 12"
    by (simp add: dec_val_def)
  then show ?thesis
    using C4_report_figures [of "Dec 5900 (- 2)" "Dec 12800 (- 2)"] by blast
qed

section \<open>Properties of the formatter\<close>

lemma py_in_single: "py_in [c] s \<longleftrightarrow> c \<in> set s"
  by (induction s) auto

lemma rstrip_last: "rstrip s = [] \<or> \<not> isspace (last (rstrip s))"
proof (cases "dropWhile isspace (rev s)")
  case Nil
  then show ?thesis by (simp add: rstrip_def)
next
  case (Cons x xs)
  then have "\<not> isspace x" using hd_dropWhile [of isspace "rev s"] by simp
  then show ?thesis using Cons by (simp add: rstrip_def)
qed

lemma rstrip_id: "s = [] \<or> \<not> isspace (last s) \<Longrightarrow> rstrip s = s"
proof (cases s rule: rev_cases)
  case Nil
  then show ?thesis by (simp add: rstrip_def)
next
  case (snoc xs x)
  assume "s = [] \<or> \<not> isspace (last s)"
  with snoc show ?thesis by (simp add: rstrip_def)
qed

lemma set_rstrip: "set (rstrip s) \<subseteq> set s"
  using set_dropWhileD [of _ isspace "rev s"] by (auto simp: rstrip_def)

lemma set_lstrip: "set (lstrip s) \<subseteq> set s"
  using set_dropWhileD [of _ isspace s] by (auto simp: lstrip_def)

lemma set_strip: "set (strip s) \<subseteq> set s"
  using set_rstrip [of "lstrip s"] set_lstrip [of s] by (auto simp: strip_def)

lemma strip_last: "strip s = [] \<or> \<not> isspace (last (strip s))"
  unfolding strip_def by (rule rstrip_last)

lemma rstrip_decomp: "\<exists>w. s = rstrip s @ w \<and> (\<forall>c\<in>set w. isspace c)"
proof -
  have "rev (takeWhile isspace (rev s) @ dropWhile isspace (rev s)) = rev (rev s)"
    by (simp only: takeWhile_dropWhile_id)
  then have "s = rstrip s @ rev (takeWhile isspace (rev s))"
    by (simp only: rev_append rev_rev_ident rstrip_def)
  moreover have "\<forall>c\<in>set (rev (takeWhile isspace (rev s))). isspace c"
    by (auto dest: set_takeWhileD)
  ultimately show ?thesis by blast
qed

lemma lstrip_id: "s = [] \<or> \<not> isspace (hd s) \<Longrightarrow> lstrip s = s"
  by (cases s) (auto simp: lstrip_def)

lemma lstrip_hd: "lstrip s = [] \<or> \<not> isspace (hd (lstrip s))"
  using hd_dropWhile [of isspace s] by (auto simp: lstrip_def)

lemma strip_hd: "strip s = [] \<or> \<not> isspace (hd (strip s))"
proof -
  obtain w where w: "lstrip s = strip s @ w"
    using rstrip_decomp [of "lstrip s"] by (auto simp: strip_def)
  show ?thesis
  proof (cases "strip s")
    case Nil
    then show ?thesis by simp
  next
    case (Cons x xs)
    then have "hd (lstrip s) = x" using w by simp
    moreover have "lstrip s \<noteq> []" using w Cons by simp
    ultimately show ?thesis using lstrip_hd [of s] Cons by auto
  qed
qed

lemma strip_id: "(s = [] \<or> \<not> isspace (hd s)) \<Longrightarrow> (s = [] \<or> \<not> isspace (last s)) \<Longrightarrow> strip s = s"
  by (simp add: strip_def lstrip_id rstrip_id)

lemma strip_strip: "strip (strip s) = strip s"
  by (rule strip_id) (rule strip_hd, rule strip_last)

lemma strip_nonempty: "s \<noteq> [] \<Longrightarrow> \<not> isspace (last s) \<Longrightarrow> strip s \<noteq> []"
proof -
  assume s: "s \<noteq> []" and l: "\<not> isspace (last s)"
  have "last s \<in> set s" using s by simp
  then have d: "dropWhile isspace s \<noteq> []" using l by auto
  then have "last (dropWhile isspace s) = last s"
    by (metis last_appendR takeWhile_dropWhile_id)
  then show ?thesis
    using d l rstrip_id [of "lstrip s"] by (simp add: strip_def lstrip_def)
qed

lemma rstrip_newline_id: "s = [] \<or> \<not> isspace (last s) \<Longrightarrow> rstrip_newline s = s"
proof (cases s rule: rev_cases)
  case Nil
  then show ?thesis by (simp add: rstrip_newline_def)
next
  case (snoc xs x)
  assume "s = [] \<or> \<not> isspace (last s)"
  with snoc have "\<not> isspace x" by simp
  then have "x \<noteq> 0x0A" by (auto simp: isspace_def)
  with snoc show ?thesis by (simp add: rstrip_newline_def)
qed

lemma split_on_no_sep: "p \<in> set (split_on c s) \<Longrightarrow> c \<notin> set p"
proof (induction s arbitrary: p)
  case Nil
  then show ?case by simp
next
  case (Cons x xs)
  then show ?case by (auto split: if_splits list.splits)
qed

lemma set_join: "set (join sep ps) \<subseteq> set sep \<union> \<Union> (set ` set ps)"
  by (induction sep ps rule: join.induct) auto

lemma join_nonempty: "ps \<noteq> [] \<Longrightarrow> \<forall>p\<in>set ps. p \<noteq> [] \<Longrightarrow> join sep ps \<noteq> []"
  by (induction sep ps rule: join.induct) auto

lemma last_join:
  "ps \<noteq> [] \<Longrightarrow> \<forall>p\<in>set ps. p \<noteq> [] \<Longrightarrow> last (join sep ps) = last (last ps)"
proof (induction sep ps rule: join.induct)
  case (3 sep p q ps)
  have "join sep (q # ps) \<noteq> []" using "3.prems" by (intro join_nonempty) simp_all
  then show ?case using 3 by simp
qed simp_all

lemma settled_empty: "settled []"
  by (simp add: settled_def)

lemma settled_rule: "settled (map of_char ''---'')"
  by (simp add: settled_def isspace_def)

lemma settled_prettify: "settled (prettify_line text)"
proof (cases "strip text = []")
  case True
  then show ?thesis by (simp add: prettify_line_def settled_def)
next
  case ne: False
  show ?thesis
  proof (cases "py_in [ch_tab] text")
    case True
    define ps where "ps = filter (\<lambda>p. p \<noteq> []) (map strip (split_on ch_tab text))"
    have pl: "prettify_line text = join (map of_char '' | '') ps"
      using ne True by (simp add: prettify_line_def ps_def Let_def)
    have notab: "\<forall>p\<in>set ps. ch_tab \<notin> set p"
      using split_on_no_sep [of _ ch_tab "text"] set_strip by (fastforce simp: ps_def)
    have nonempty: "\<forall>p\<in>set ps. p \<noteq> []" by (simp add: ps_def)
    have lasts: "\<forall>p\<in>set ps. \<not> isspace (last p)"
      using strip_last by (auto simp: ps_def)
    have t: "ch_tab \<notin> set (join (map of_char '' | '') ps)"
      using set_join [of "map of_char '' | ''" ps] notab by auto
    show ?thesis
    proof (cases "ps = []")
      case True
      then show ?thesis by (simp add: pl settled_def)
    next
      case False
      then have "last (join (map of_char '' | '') ps) = last (last ps)"
        using nonempty by (intro last_join) simp_all
      moreover have "last ps \<in> set ps" using False by simp
      ultimately have "\<not> isspace (last (join (map of_char '' | '') ps))"
        using lasts by simp
      then show ?thesis using t by (simp add: pl settled_def)
    qed
  next
    case False
    then have nt: "ch_tab \<notin> set text" by (simp add: py_in_single)
    show ?thesis
    proof (cases "strip text \<in> set category_keywords")
      case True
      have "prettify_line text = map of_char ''- '' @ strip text"
        using ne False True by (simp add: prettify_line_def Let_def)
      moreover have "ch_tab \<notin> set (strip text)" using nt set_strip [of "text"] by auto
      moreover have "\<not> isspace (last (strip text))" using ne strip_last [of "text"] by simp
      ultimately show ?thesis using ne by (simp add: settled_def)
    next
      case nk: False
      have p: "prettify_line text = rstrip text"
        using ne False nk by (simp add: prettify_line_def Let_def)
      have "lstrip text \<noteq> []" using ne by (auto simp: strip_def rstrip_def)
      then obtain c where "c \<in> set text" "\<not> isspace c"
        using lstrip_hd [of "text"] set_lstrip [of "text"] by (metis hd_in_set subsetD)
      then have "rstrip text \<noteq> []"
        by (auto simp: rstrip_def)
      then show ?thesis
        using rstrip_last [of "text"] set_rstrip [of "text"] nt by (auto simp: p settled_def)
    qed
  qed
qed

lemma prettify_fixed:
  assumes s: "settled l" and ne: "l \<noteq> []" and nk: "strip l \<notin> set category_keywords"
  shows "prettify_line l = l"
proof -
  have l: "\<not> isspace (last l)" using s ne by (simp add: settled_def)
  have "strip l \<noteq> []" by (rule strip_nonempty [OF ne l])
  moreover have "\<not> py_in [ch_tab] l" using s by (simp add: py_in_single settled_def)
  moreover have "rstrip l = l" using l by (intro rstrip_id) simp
  ultimately show ?thesis using nk by (simp add: prettify_line_def Let_def)
qed

lemma is_date_line_strip: "is_date_line (strip l) = is_date_line l"
  by (simp add: is_date_line_def strip_strip)

lemma format_loop_fixed:
  "\<forall>l\<in>set D. settled l \<and> \<not> is_date_line l \<and> strip l \<notin> set category_keywords \<Longrightarrow>
     format_loop D out fcw = out @ D"
proof (induction D arbitrary: out)
  case Nil
  then show ?case by simp
next
  case (Cons l D)
  have s: "settled l" and nd: "\<not> is_date_line l" and nk: "strip l \<notin> set category_keywords"
    using Cons.prems by simp_all
  have r: "rstrip_newline l = l" using s by (intro rstrip_newline_id) (simp add: settled_def)
  have rest: "format_loop D (out @ [l]) fcw = (out @ [l]) @ D"
    using Cons.prems by (intro Cons.IH) simp
  show ?case
  proof (cases "l = []")
    case True
    then have "strip l = []" by (simp add: strip_def lstrip_def rstrip_def)
    then show ?thesis using rest True nd r by (simp add: Let_def is_date_line_strip)
  next
    case False
    then have "strip l \<noteq> []" using s by (intro strip_nonempty) (simp_all add: settled_def)
    then show ?thesis
      using rest nd r prettify_fixed [OF s False nk] by (simp add: Let_def is_date_line_strip)
  qed
qed

lemma format_loop_settled:
  "\<forall>l\<in>set out. settled l \<Longrightarrow> \<forall>l\<in>set (format_loop lines out fcw). settled l"
proof (induction lines arbitrary: out fcw)
  case Nil
  then show ?case by simp
next
  case (Cons raw lines)
  show ?case
    using Cons.prems
    by (auto simp: Let_def settled_prettify settled_empty settled_rule [simplified] intro!: Cons.IH)
qed

lemma format_cost_file_settled: "l \<in> set (format_cost_file lines) \<Longrightarrow> settled l"
  using format_loop_settled [of "[]" lines False] by (simp add: format_cost_file_def)

text \<open>
  Claim C9, with one more condition. No line of formatter output contains a tab. When in
  addition no line of the output is a date marker and no line of it, stripped, is one of
  the category keywords, formatting the output again returns it line for line; no
  separator is inserted, as separators go before date markers only.
\<close>

theorem C9_formatter_idempotent:
  "(\<forall>l\<in>set (format_cost_file lines). ch_tab \<notin> set l) \<and>
   ((\<forall>l\<in>set (format_cost_file lines).
       \<not> is_date_line l \<and> strip l \<notin> set category_keywords) \<longrightarrow>
    format_cost_file (format_cost_file lines) = format_cost_file lines)"
proof -
  have 1: "\<forall>l\<in>set (format_cost_file lines). ch_tab \<notin> set l"
    using format_cost_file_settled [of _ lines] by (auto simp: settled_def)
  have 2: "format_cost_file (format_cost_file lines) = format_cost_file lines"
    if "\<forall>l\<in>set (format_cost_file lines). \<not> is_date_line l \<and> strip l \<notin> set category_keywords"
    using that format_cost_file_settled [of _ lines]
      format_loop_fixed [of "format_cost_file lines" "[]" False]
    by (simp add: format_cost_file_def)
  show ?thesis using 1 2 by blast
qed

lemmas format_ev = format_cost_file_def prettify_line_def strip_def lstrip_def rstrip_def
  rstrip_newline_def is_date_line_def date_pattern_match_def category_keywords_def
  isspace_def isdigit_def digit_value_def digit_zeros_def Let_def buy_word_def plain_lines_def

text \<open>
  Claim C9 as stated fails. The line made of the keyword for a purchase and a tab is
  formatted to the bare keyword, a line without a tab that is not a date marker; a second
  run turns the bare keyword into a list entry.
\<close>

theorem C9_formatter_idempotent_counterexample:
  "format_cost_file [buy_word @ [ch_tab]] = [buy_word] \<and>
   \<not> py_in [ch_tab] buy_word \<and> \<not> is_date_line buy_word \<and>
   format_cost_file [buy_word] = [map of_char ''- '' @ buy_word]"
  by (simp add: format_ev)

theorem C9_formatter_idempotent_witness:
  "format_cost_file plain_lines = [map of_char ''  x'', [], map of_char ''a | b''] \<and>
   format_cost_file (format_cost_file plain_lines) = format_cost_file plain_lines"
proof -
  have 1: "format_cost_file plain_lines = [map of_char ''  x'', [], map of_char ''a | b'']"
    by (simp add: format_ev)
  have "\<forall>l\<in>set (format_cost_file plain_lines).
          \<not> is_date_line l \<and> strip l \<notin> set category_keywords"
    unfolding 1 by (simp add: format_ev)
  then show ?thesis
    using C9_formatter_idempotent [of plain_lines] 1 by blast
qed

section \<open>Properties of the amount extractor\<close>

lemma isdigit_iff: "isdigit c \<longleftrightarrow> (\<exists>z\<in>set digit_zeros. z \<le> c \<and> c < z + 10)"
proof -
  have "isdigit c \<longleftrightarrow> List.find (\<lambda>z. z \<le> c \<and> c < z + 10) digit_zeros \<noteq> None"
    by (simp add: isdigit_def digit_value_def split: option.splits)
  also have "\<dots> \<longleftrightarrow> (\<exists>z\<in>set digit_zeros. z \<le> c \<and> c < z + 10)"
    by (auto simp: find_None_iff)
  finally show ?thesis .
qed

lemma glyph_not_space: "is_glyph c \<Longrightarrow> \<not> isspace c"
  by (auto simp: is_glyph_def isspace_def)

lemma glyph_not_digit: "is_glyph c \<Longrightarrow> \<not> isdigit c"
  by (auto simp: is_glyph_def isdigit_iff digit_zeros_def)

lemma glyph_not_numchar: "is_glyph c \<Longrightarrow> \<not> numchar c"
  using glyph_not_digit [of c] by (auto simp: numchar_def is_glyph_def)

lemma space_not_digit: "isspace c \<Longrightarrow> \<not> isdigit c"
  unfolding isdigit_iff digit_zeros_def isspace_def by auto

lemma numchar_not_space: "numchar c \<Longrightarrow> \<not> isspace c"
  using space_not_digit [of c] by (auto simp: numchar_def isspace_def)

lemma dropWhile_all: "list_all P u \<Longrightarrow> \<not> P x \<Longrightarrow> dropWhile P (u @ x # r) = x # r"
  by (induction u) auto

lemma dropWhile_stops:
  "\<not> list_all P u \<Longrightarrow> \<exists>c r. dropWhile P (u @ v) = c # r \<and> c \<in> set u \<and> \<not> P c"
  by (induction u) auto

lemma takeWhile_body:
  "list_all numchar b \<Longrightarrow> body_ends rest \<Longrightarrow>
     takeWhile numchar (b @ rest) = b \<and> dropWhile numchar (b @ rest) = rest"
  by (induction b) (auto simp: body_ends_def split: list.splits)

lemma match_body_segment:
  assumes u: "list_all (\<lambda>c. \<not> is_glyph c) u" and g: "is_glyph g"
    and w: "list_all isspace w" and b: "b \<noteq> []" "list_all numchar b" and r: "body_ends rest"
  shows "match_body (u @ g # w @ b @ rest) = (if list_all isspace u then Some (b, rest) else None)"
proof (cases "list_all isspace u")
  case True
  have 1: "dropWhile isspace (u @ g # w @ b @ rest) = g # w @ b @ rest"
    using True glyph_not_space [OF g] by (rule dropWhile_all)
  obtain x xs where bx: "b = x # xs" using b(1) by (cases b) auto
  then have "\<not> isspace x" using b(2) numchar_not_space by simp
  then have 2: "dropWhile isspace (w @ b @ rest) = b @ rest"
    using dropWhile_all [OF w, of x "xs @ rest"] bx by simp
  have 3: "takeWhile numchar (b @ rest) = b \<and> dropWhile numchar (b @ rest) = rest"
    by (rule takeWhile_body [OF b(2) r])
  show ?thesis using True g b(1) by (simp add: match_body_def 1 2 3)
next
  case False
  then obtain c r' where d: "dropWhile isspace (u @ g # w @ b @ rest) = c # r'" and c: "c \<in> set u"
    using dropWhile_stops [of isspace u] by blast
  have "\<not> is_glyph c" using u c by (simp add: list_all_iff)
  then show ?thesis using False by (simp add: match_body_def d)
qed

lemma glyph_not_sign: "is_glyph c \<Longrightarrow> c \<noteq> ch_plus \<and> c \<noteq> ch_minus"
  by (auto simp: is_glyph_def)

lemma match_at_segment:
  assumes u: "list_all (\<lambda>c. \<not> is_glyph c) u" and g: "is_glyph g"
    and w: "list_all isspace w" and b: "b \<noteq> []" "list_all numchar b" and r: "body_ends rest"
  shows "match_at AnySign (u @ g # w @ b @ rest) = None \<or>
         match_at AnySign (u @ g # w @ b @ rest) = Some (b, rest)"
proof (cases u)
  case Nil
  then show ?thesis
    using match_body_segment [OF _ g w b r, of "[]"] glyph_not_sign [OF g] by simp
next
  case (Cons c u')
  have u': "list_all (\<lambda>c. \<not> is_glyph c) u'" using u Cons by simp
  show ?thesis
    using match_body_segment [OF u g w b r] match_body_segment [OF u' g w b r] Cons
    by (auto split: if_splits)
qed

lemma match_at_glyph:
  assumes g: "is_glyph g"
    and w: "list_all isspace w" and b: "b \<noteq> []" "list_all numchar b" and r: "body_ends rest"
  shows "match_at AnySign (g # w @ b @ rest) = Some (b, rest)"
  using match_body_segment [OF _ g w b r, of "[]"] glyph_not_sign [OF g] by simp

lemma finditer_segment:
  assumes g: "is_glyph g"
    and w: "list_all isspace w" and b: "b \<noteq> []" "list_all numchar b" and r: "body_ends rest"
  shows "list_all (\<lambda>c. \<not> is_glyph c) u \<Longrightarrow>
           finditer AnySign (u @ g # w @ b @ rest) = b # finditer AnySign rest"
proof (induction u)
  case Nil
  then show ?case using match_at_glyph [OF g w b r] by simp
next
  case (Cons c u)
  have "match_at AnySign ((c # u) @ g # w @ b @ rest) = None \<or>
        match_at AnySign ((c # u) @ g # w @ b @ rest) = Some (b, rest)"
    by (rule match_at_segment [OF Cons.prems g w b r])
  then show ?case using Cons by auto
qed

lemma match_body_no_glyph: "list_all (\<lambda>c. \<not> is_glyph c) s \<Longrightarrow> match_body s = None"
proof -
  assume a: "list_all (\<lambda>c. \<not> is_glyph c) s"
  have "set (dropWhile isspace s) \<subseteq> set s" by (auto dest: set_dropWhileD)
  then show ?thesis using a
    by (auto simp: match_body_def list_all_iff split: list.splits)
qed

lemma finditer_no_glyph: "list_all (\<lambda>c. \<not> is_glyph c) s \<Longrightarrow> finditer p s = []"
proof (induction s)
  case Nil
  then show ?case by simp
next
  case (Cons c s)
  have "match_body (c # s) = None" "match_body s = None"
    using Cons.prems by (simp_all add: match_body_no_glyph)
  then have "match_at p (c # s) = None" by (cases p) simp_all
  then show ?case using Cons by simp
qed

lemma gap_sign_space_no_glyph:
  "token_ok t \<Longrightarrow> list_all (\<lambda>c. \<not> is_glyph c) (gap t @ sign t @ space1 t)"
  using glyph_not_space by (auto simp: token_ok_def list_all_iff is_glyph_def)

lemma finditer_line:
  "line_ok ts tail \<Longrightarrow> finditer AnySign (line_of ts tail) = map body ts"
proof (induction ts)
  case Nil
  then show ?case by (simp add: finditer_no_glyph)
next
  case (Cons t ts)
  have ok: "token_ok t" and r: "body_ends (line_of ts tail)" using Cons.prems by simp_all
  have "finditer AnySign ((gap t @ sign t @ space1 t) @ glyph t # space2 t @ body t @ line_of ts tail) =
          body t # finditer AnySign (line_of ts tail)"
    using ok r gap_sign_space_no_glyph [OF ok]
    by (intro finditer_segment) (simp_all add: token_ok_def)
  then show ?case using Cons by (simp add: render_def)
qed

lemma point_not_digit: "\<not> isdigit ch_point"
  by (simp add: isdigit_iff digit_zeros_def)

lemma comma_not_digit: "\<not> isdigit ch_comma"
  by (simp add: isdigit_iff digit_zeros_def)

lemma digits_nat_Some:
  "list_all isdigit xs \<Longrightarrow> digits_nat acc xs = Some (acc * 10 ^ length xs + digits_value xs)"
proof (induction xs arbitrary: acc)
  case Nil
  then show ?case by simp
next
  case (Cons c cs)
  then obtain d where d: "digit_value c = Some d" by (auto simp: isdigit_def)
  have "digits_nat (10 * acc + d) cs = Some ((10 * acc + d) * 10 ^ length cs + digits_value cs)"
    using Cons by simp
  then show ?case by (simp add: d algebra_simps)
qed

lemma digits_nat_None: "\<not> list_all isdigit xs \<Longrightarrow> digits_nat acc xs = None"
  by (induction xs arbitrary: acc) (auto simp: isdigit_def split: option.splits)

lemma Decimal_str_cases:
  assumes a: "list_all (\<lambda>c. isdigit c \<or> c = ch_point) s"
  shows "Decimal_str s =
           (if count_list s ch_point \<le> 1 \<and> list_ex isdigit s then
              (let ip = takeWhile (\<lambda>c. c \<noteq> ch_point) s; fp = drop (Suc (length ip)) s
               in Some (Dec (int (digits_value ip * 10 ^ length fp + digits_value fp))
                            (- int (length fp))))
            else None)"
proof -
  define ip where "ip = takeWhile (\<lambda>c. c \<noteq> ch_point) s"
  define d where "d = dropWhile (\<lambda>c. c \<noteq> ch_point) s"
  have s: "s = ip @ d" by (simp add: ip_def d_def)
  have ipd: "list_all isdigit ip"
    using a set_takeWhileD [of _ "\<lambda>c. c \<noteq> ch_point" s]
    by (auto simp: ip_def list_all_iff)
  have ipc: "count_list ip ch_point = 0"
    using set_takeWhileD [of ch_point "\<lambda>c. c \<noteq> ch_point" s]
    by (auto simp: ip_def count_list_0_iff)
  show ?thesis
  proof (cases d)
    case Nil
    then have sip: "s = ip" using s by simp
    have fp: "drop (Suc (length ip)) s = []" using sip by simp
    have ex: "list_ex isdigit s \<longleftrightarrow> ip \<noteq> []"
      using ipd sip by (cases ip) (auto simp: list_ex_iff list_all_iff)
    show ?thesis
      using Nil ipc ipd ex
      by (simp add: Decimal_str_def ip_def [symmetric] d_def [symmetric] fp digits_nat_Some
          sip [symmetric] Let_def)
  next
    case (Cons p fp)
    have "d \<noteq> []" using Cons by simp
    then have "\<not> hd d \<noteq> ch_point"
      unfolding d_def by (rule hd_dropWhile)
    then have p: "p = ch_point" using Cons by simp
    have fp: "drop (Suc (length ip)) s = fp" using s Cons by simp
    have fpa: "list_all (\<lambda>c. isdigit c \<or> c = ch_point) fp"
      using a s Cons by simp
    have cnt: "count_list s ch_point = Suc (count_list fp ch_point)"
      using s Cons p ipc by simp
    show ?thesis
    proof (cases "ch_point \<in> set fp")
      case True
      then have "\<not> list_all isdigit (ip @ fp)"
        using point_not_digit by (auto simp: list_all_iff)
      moreover have "0 < count_list fp ch_point"
        using True count_list_0_iff [of fp ch_point] by (cases "count_list fp ch_point") auto
      moreover have "fp \<noteq> []" using True by auto
      ultimately show ?thesis
        using Cons cnt
        by (simp add: Decimal_str_def ip_def [symmetric] d_def [symmetric] digits_nat_None Let_def)
    next
      case False
      then have fpd: "list_all isdigit fp" using fpa by (auto simp: list_all_iff)
      have c0: "count_list fp ch_point = 0" using False by (simp add: count_list_0_iff)
      have ex: "list_ex isdigit s \<longleftrightarrow> ip \<noteq> [] \<or> fp \<noteq> []"
      proof -
        have "list_ex isdigit s \<longleftrightarrow> list_ex isdigit ip \<or> list_ex isdigit fp"
          using s Cons p point_not_digit by (auto simp: list_ex_iff)
        moreover have "list_ex isdigit ip \<longleftrightarrow> ip \<noteq> []"
          using ipd by (cases ip) (auto simp: list_ex_iff list_all_iff)
        moreover have "list_ex isdigit fp \<longleftrightarrow> fp \<noteq> []"
          using fpd by (cases fp) (auto simp: list_ex_iff list_all_iff)
        ultimately show ?thesis by simp
      qed
      have dn: "digits_nat 0 (ip @ fp) =
                  Some (digits_value ip * 10 ^ length fp + digits_value fp)"
      proof -
        have "digits_nat 0 (ip @ fp) = Some (0 * 10 ^ length (ip @ fp) + digits_value (ip @ fp))"
          using ipd fpd by (intro digits_nat_Some) simp
        moreover have "digits_value (xs @ fp) = digits_value xs * 10 ^ length fp + digits_value fp" for xs
          by (induction xs) (simp_all add: algebra_simps power_add)
        ultimately show ?thesis by simp
      qed
      have lhs: "Decimal_str s =
                   (if ip = [] \<and> fp = [] then None
                    else Some (Dec (int (digits_value ip * 10 ^ length fp + digits_value fp))
                                   (- int (length fp))))"
        by (simp add: Decimal_str_def Let_def ip_def [symmetric] d_def [symmetric] Cons dn)
      have rhs: "(let ip = takeWhile (\<lambda>c. c \<noteq> ch_point) s; fp = drop (Suc (length ip)) s
                  in Some (Dec (int (digits_value ip * 10 ^ length fp + digits_value fp))
                               (- int (length fp)))) =
                 Some (Dec (int (digits_value ip * 10 ^ length fp + digits_value fp))
                           (- int (length fp)))"
        by (simp only: Let_def ip_def [symmetric] fp)
      show ?thesis
        unfolding rhs lhs using cnt c0 ex by auto
    qed
  qed
qed

lemma remove_commas_body:
  assumes "list_all numchar b"
  shows "list_all (\<lambda>c. isdigit c \<or> c = ch_point) (remove_commas b)"
    and "count_list (remove_commas b) ch_point = count_list b ch_point"
    and "list_ex isdigit (remove_commas b) = list_ex isdigit b"
  using assms comma_not_digit
  by (induction b) (auto simp: remove_commas_def numchar_def)

lemma token_amount_valid:
  "list_all numchar b \<Longrightarrow> token_amount b \<noteq> None \<longleftrightarrow> valid_body b"
  using remove_commas_body [of b] Decimal_str_cases [of "remove_commas b"]
  by (simp add: token_amount_def valid_body_def Let_def)

lemma token_amount_magnitude:
  assumes b: "list_all numchar b" and d: "token_amount b = Some d"
  shows "dec_val d = magnitude b"
proof -
  define s where "s = remove_commas b"
  define ip where "ip = takeWhile (\<lambda>c. c \<noteq> ch_point) s"
  define fp where "fp = drop (Suc (length ip)) s"
  have sd: "Decimal_str s = Some d" using d by (simp add: token_amount_def s_def)
  have "list_all (\<lambda>c. isdigit c \<or> c = ch_point) s"
    unfolding s_def by (rule remove_commas_body(1) [OF b])
  then have "Decimal_str s =
          (if count_list s ch_point \<le> 1 \<and> list_ex isdigit s then
             Some (Dec (int (digits_value ip * 10 ^ length fp + digits_value fp))
                       (- int (length fp)))
           else None)"
    unfolding ip_def fp_def by (simp only: Decimal_str_cases Let_def)
  then have "d = Dec (int (digits_value ip * 10 ^ length fp + digits_value fp)) (- int (length fp))"
    using sd by (metis option.distinct(1) option.inject)
  then have "dec_val d =
               of_nat (digits_value ip * 10 ^ length fp + digits_value fp) / 10 ^ length fp"
    by (simp add: dec_val_def power_int_minus field_simps)
  also have "\<dots> = of_nat (digits_value ip) + of_nat (digits_value fp) / 10 ^ length fp"
    by (simp add: add_divide_distrib)
  finally have v: "dec_val d =
      of_nat (digits_value ip) + of_nat (digits_value fp) / 10 ^ length fp" .
  show ?thesis
    unfolding magnitude_def Let_def s_def [symmetric] ip_def [symmetric] fp_def [symmetric]
    by (rule v)
qed

lemma line_ok_bodies: "line_ok ts tail \<Longrightarrow> t \<in> set ts \<Longrightarrow> list_all numchar (body t)"
  by (induction ts) (auto simp: token_ok_def)

lemma map_filter_all_Some:
  "\<forall>x\<in>set xs. f x \<noteq> None \<Longrightarrow> map Some (List.map_filter f xs) = map f xs"
  by (induction xs) auto

text \<open>
  Claim C6. On a line made of \<open>k\<close> tokens and a rest, the extractor goes through the
  tokens from left to right and returns, for each token whose body is a number, the
  \<open>Decimal\<close> of the body without its commas; a token whose body is not a number is skipped,
  and the extractor, a total function, raises nothing. A body is a number exactly when it
  has at most one point and at least one digit; the amount then has the magnitude of the
  body and is not negative, whatever the sign of the token. When every body is a
  number the extractor returns exactly \<open>k\<close> amounts, the amount of the i-th token at
  position i.
\<close>

theorem C6_extract_amounts:
  "line_ok ts tail \<longrightarrow>
     extract_amounts (line_of ts tail) =
       List.map_filter (\<lambda>t. Decimal_str (remove_commas (body t))) ts \<and>
     (\<forall>t\<in>set ts. Decimal_str (remove_commas (body t)) \<noteq> None \<longleftrightarrow> valid_body (body t)) \<and>
     (\<forall>t\<in>set ts. \<forall>d. Decimal_str (remove_commas (body t)) = Some d \<longrightarrow>
        dec_val d = magnitude (body t) \<and> 0 \<le> dec_val d) \<and>
     ((\<forall>t\<in>set ts. valid_body (body t)) \<longrightarrow>
        length (extract_amounts (line_of ts tail)) = length ts \<and>
        map Some (extract_amounts (line_of ts tail)) =
          map (\<lambda>t. Decimal_str (remove_commas (body t))) ts)"
proof
  assume ok: "line_ok ts tail"
  have 1: "extract_amounts (line_of ts tail) =
             List.map_filter (\<lambda>t. Decimal_str (remove_commas (body t))) ts"
    unfolding extract_amounts_def finditer_line [OF ok]
    by (induction ts) (simp_all add: token_amount_def split: option.splits)
  have 2: "\<forall>t\<in>set ts. Decimal_str (remove_commas (body t)) \<noteq> None \<longleftrightarrow> valid_body (body t)"
    using token_amount_valid line_ok_bodies [OF ok] by (simp add: token_amount_def)
  have 3: "\<forall>t\<in>set ts. \<forall>d. Decimal_str (remove_commas (body t)) = Some d \<longrightarrow>
             dec_val d = magnitude (body t) \<and> 0 \<le> dec_val d"
    using token_amount_magnitude line_ok_bodies [OF ok] token_amount_nonneg
    by (auto simp: token_amount_def dec_val_nonneg [symmetric])
  have 4: "length (extract_amounts (line_of ts tail)) = length ts \<and>
           map Some (extract_amounts (line_of ts tail)) =
             map (\<lambda>t. Decimal_str (remove_commas (body t))) ts"
    if v: "\<forall>t\<in>set ts. valid_body (body t)"
  proof -
    have "\<forall>t\<in>set ts. Decimal_str (remove_commas (body t)) \<noteq> None" using 2 v by simp
    then have m: "map Some (extract_amounts (line_of ts tail)) =
                    map (\<lambda>t. Decimal_str (remove_commas (body t))) ts"
      unfolding 1 by (rule map_filter_all_Some)
    then have "length (extract_amounts (line_of ts tail)) = length ts"
      by (metis length_map)
    then show ?thesis using m by blast
  qed
  show "extract_amounts (line_of ts tail) =
          List.map_filter (\<lambda>t. Decimal_str (remove_commas (body t))) ts \<and>
        (\<forall>t\<in>set ts. Decimal_str (remove_commas (body t)) \<noteq> None \<longleftrightarrow> valid_body (body t)) \<and>
        (\<forall>t\<in>set ts. \<forall>d. Decimal_str (remove_commas (body t)) = Some d \<longrightarrow>
           dec_val d = magnitude (body t) \<and> 0 \<le> dec_val d) \<and>
        ((\<forall>t\<in>set ts. valid_body (body t)) \<longrightarrow>
           length (extract_amounts (line_of ts tail)) = length ts \<and>
           map Some (extract_amounts (line_of ts tail)) =
             map (\<lambda>t. Decimal_str (remove_commas (body t))) ts)"
    using 1 2 3 4 by blast
qed

lemmas token_ev = balance_tokens_def render_def token_ok_def body_ends_def valid_body_def
  magnitude_def

theorem C6_extract_amounts_witness:
  "line_of balance_tokens [] = balance_example \<and>
   extract_amounts balance_example = [Dec 7680 (- 2), Dec 3137 (- 2), Dec 0 (- 2)] \<and>
   length (extract_amounts balance_example) = length balance_tokens \<and>
   map magnitude (map body balance_tokens) = [768 / 10, 3137 / 100, 0]"
proof -
  have l: "line_of balance_tokens [] = balance_example"
    by (simp add: token_ev balance_example_def)
  have ok: "line_ok balance_tokens []"
    by (simp add: token_ev ev)
  have v: "\<forall>t\<in>set balance_tokens. valid_body (body t)"
    by (simp add: token_ev ev)
  have e: "extract_amounts (line_of balance_tokens []) =
             List.map_filter (\<lambda>t. Decimal_str (remove_commas (body t))) balance_tokens"
    and n: "length (extract_amounts (line_of balance_tokens [])) = length balance_tokens"
    using C6_extract_amounts [of balance_tokens "[]"] ok v by blast+
  have "List.map_filter (\<lambda>t. Decimal_str (remove_commas (body t))) balance_tokens =
          [Dec 7680 (- 2), Dec 3137 (- 2), Dec 0 (- 2)]"
    by (simp add: token_ev ev)
  moreover have "map magnitude (map body balance_tokens) = [768 / 10, 3137 / 100, 0]"
    by (simp add: token_ev ev)
  ultimately show ?thesis using e n l by simp
qed

text \<open>
  The body of a token is the whole run of digits, commas and points after the glyph: in
  \<open>G59.00.\<close> the body is \<open>59.00.\<close>, which is not a number, and the token is skipped.
\<close>

lemma extract_amounts_trailing_point:
  "extract_amounts ([ch_yen] @ map of_char ''59.00.'') = []"
  by (simp add: ev)

section \<open>The external contribution of a block\<close>

lemma powi_align: "e \<le> a \<Longrightarrow> 10 powi e * (10::rat) ^ nat (a - e) = 10 powi a"
  by (simp add: power_int_add [symmetric] flip: power_int_of_nat)

lemma dec_less_val: "dec_less x y \<longleftrightarrow> dec_val x < dec_val y"
proof -
  define e where "e = min (expo x) (expo y)"
  have p: "(0::rat) < 10 powi e" by simp
  have x: "dec_val x = of_int (coef x * 10 ^ nat (expo x - e)) * 10 powi e"
    using powi_align [of e "expo x"] by (simp add: e_def dec_val_def mult.assoc mult.commute)
  have y: "dec_val y = of_int (coef y * 10 ^ nat (expo y - e)) * 10 powi e"
    using powi_align [of e "expo y"] by (simp add: e_def dec_val_def mult.assoc mult.commute)
  have "dec_val x < dec_val y \<longleftrightarrow>
          rat_of_int (coef x * 10 ^ nat (expo x - e)) < of_int (coef y * 10 ^ nat (expo y - e))"
    unfolding x y using p by (simp only: mult_less_cancel_right_pos)
  then show ?thesis
    by (simp only: of_int_less_iff dec_less_def Let_def e_def)
qed

lemma max_step_props:
  assumes "best = None \<or> (\<exists>b. best = Some b \<and> b \<in> set seen \<and> (\<forall>d\<in>set seen. dec_val d \<le> dec_val b))"
      and "best = None \<longrightarrow> seen = []"
  shows "\<exists>m. foldl max_step best ds = (if seen @ ds = [] then None else Some m) \<and>
             (seen @ ds \<noteq> [] \<longrightarrow> m \<in> set (seen @ ds) \<and> (\<forall>d\<in>set (seen @ ds). dec_val d \<le> dec_val m))"
  using assms
proof (induction ds arbitrary: best seen)
  case Nil
  then show ?case by auto
next
  case (Cons d ds)
  have 1: "\<exists>b. max_step best d = Some b \<and> b \<in> set (seen @ [d]) \<and>
               (\<forall>x\<in>set (seen @ [d]). dec_val x \<le> dec_val b)"
  proof (cases best)
    case None
    then have "seen = []" using Cons.prems by simp
    then show ?thesis using None by (simp add: max_step_def)
  next
    case (Some b)
    then have b: "b \<in> set seen" "\<forall>x\<in>set seen. dec_val x \<le> dec_val b"
      using Cons.prems by auto
    show ?thesis
    proof (cases "dec_less b d")
      case True
      then have "dec_val b < dec_val d" by (simp add: dec_less_val)
      then have "\<forall>x\<in>set (seen @ [d]). dec_val x \<le> dec_val d" using b by fastforce
      then show ?thesis using Some True by (simp add: max_step_def)
    next
      case False
      then have "dec_val d \<le> dec_val b" by (simp add: dec_less_val)
      then show ?thesis using Some False b by (simp add: max_step_def)
    qed
  qed
  have "\<exists>m. foldl max_step (max_step best d) ds =
               (if (seen @ [d]) @ ds = [] then None else Some m) \<and>
             ((seen @ [d]) @ ds \<noteq> [] \<longrightarrow> m \<in> set ((seen @ [d]) @ ds) \<and>
                (\<forall>x\<in>set ((seen @ [d]) @ ds). dec_val x \<le> dec_val m))"
    using 1 by (intro Cons.IH) auto
  then show ?case by simp
qed

lemma max_amount_props:
  "(max_amount ds = None \<longleftrightarrow> ds = []) \<and>
   (\<forall>m. max_amount ds = Some m \<longrightarrow> m \<in> set ds \<and> (\<forall>d\<in>set ds. dec_val d \<le> dec_val m))"
  using max_step_props [of None "[]" ds] by (auto simp: max_amount_def split: if_splits)

lemma foldl_step3:
  "foldl step3_line best block = foldl max_step best (first_amounts has_signed_glyph block)"
proof (induction block arbitrary: best)
  case Nil
  then show ?case by (simp add: first_amounts_def)
next
  case (Cons l block)
  have "step3_line best l =
          (if has_signed_glyph l then
             (case extract_amounts l of [] \<Rightarrow> best | a # rest \<Rightarrow> max_step best a)
           else best)"
    by (auto simp: step3_line_def max_step_def split: list.splits option.splits)
  then show ?case using Cons.IH
    by (simp add: first_amounts_def split: list.splits)
qed

lemma foldl_guarded_sum:
  assumes f: "\<And>acc l. f acc l =
                (if q l then (if extract_amounts l \<noteq> [] then dec_add acc (line_sum l) else acc)
                 else acc)"
  shows "in_prec acc \<Longrightarrow> dec_val acc = dec_val acc' \<Longrightarrow>
           in_prec (foldl f acc block) \<and>
           dec_val (foldl f acc block) = dec_val (foldl dec_add acc' (map line_sum (filter q block)))"
proof (induction block arbitrary: acc acc')
  case Nil
  then show ?case by simp
next
  case (Cons l block)
  show ?case
  proof (cases "q l")
    case False
    then show ?thesis using Cons.IH [OF Cons.prems] by (simp add: f)
  next
    case True
    show ?thesis
    proof (cases "extract_amounts l = []")
      case e: True
      have "dec_val (dec_add acc' (line_sum l)) = dec_val (dec_fix acc')"
        using e by (intro dec_add_zero_right) (simp add: line_sum_def py_sum_def is_zero_def)
      also have "\<dots> = dec_val (dec_fix acc)"
        using Cons.prems(2) by (intro dec_fix_cong) simp
      also have "\<dots> = dec_val acc" using Cons.prems(1) by (simp add: dec_fix_in_prec)
      finally have "dec_val acc = dec_val (dec_add acc' (line_sum l))" by simp
      then show ?thesis
        using Cons.IH [OF Cons.prems(1), of "dec_add acc' (line_sum l)"] True e
        by (simp add: f)
    next
      case ne: False
      have "dec_val (dec_add acc (line_sum l)) = dec_val (dec_add acc' (line_sum l))"
        using Cons.prems(2) by (intro dec_add_cong) simp_all
      then show ?thesis
        using Cons.IH [OF dec_add_in_prec, of acc "line_sum l" "dec_add acc' (line_sum l)"] True ne
        by (simp add: f)
    qed
  qed
qed

lemma step1_value:
  "in_prec (foldl step1_line (Dec 0 0) block) \<and>
   dec_val (foldl step1_line (Dec 0 0) block) =
     dec_val (step_sum (\<lambda>l. has_method_keyword l \<and> py_in [ch_yen] l) block)"
  unfolding step_sum_def py_sum_def
  by (rule foldl_guarded_sum) (simp_all add: step1_line_def line_sum_def Let_def in_prec_zero)

lemma step2_value:
  "in_prec (foldl step2_line (Dec 0 0) block) \<and>
   dec_val (foldl step2_line (Dec 0 0) block) =
     dec_val (step_sum (\<lambda>l. py_in [ch_yen] l \<and> \<not> list_ex (\<lambda>w. py_in w l) wallet_words \<and>
                             \<not> has_signed_glyph l) block)"
  unfolding step_sum_def py_sum_def
  by (rule foldl_guarded_sum) (simp_all add: step2_line_def line_sum_def Let_def in_prec_zero)

lemma calc_fst_value:
  "dec_val (fst (calc_external_for_block block)) =
     (if \<not> has_external_method block then 0
      else
        (let s1 = step_sum (\<lambda>l. has_method_keyword l \<and> py_in [ch_yen] l) block
         in if \<not> is_zero s1 then dec_val s1
            else
              (let s2 = step_sum (\<lambda>l. py_in [ch_yen] l \<and>
                                     \<not> list_ex (\<lambda>w. py_in w l) wallet_words \<and>
                                     \<not> has_signed_glyph l) block
               in if \<not> is_zero s2 then dec_val s2
                  else (case max_amount (first_amounts has_signed_glyph block) of
                          None \<Rightarrow> 0
                        | Some m \<Rightarrow> dec_val (dec_fix m)))))"
proof (cases "has_external_method block")
  case False
  then show ?thesis by (simp add: calc_external_for_block_def Let_def dec_val_def)
next
  case True
  define c1 where "c1 = foldl step1_line (Dec 0 0) block"
  define c2 where "c2 = foldl step2_line (Dec 0 0) block"
  define s1 where "s1 = step_sum (\<lambda>l. has_method_keyword l \<and> py_in [ch_yen] l) block"
  define s2 where "s2 = step_sum (\<lambda>l. py_in [ch_yen] l \<and>
                         \<not> list_ex (\<lambda>w. py_in w l) wallet_words \<and> \<not> has_signed_glyph l) block"
  define e1 where "e1 = dec_add (Dec 0 0) c1"
  define e2 where "e2 = dec_add e1 c2"
  have p1: "in_prec c1" and v1: "dec_val c1 = dec_val s1"
    using step1_value [of block] by (simp_all add: c1_def s1_def)
  have p2: "in_prec c2" and v2: "dec_val c2 = dec_val s2"
    using step2_value [of block] by (simp_all add: c2_def s2_def)
  have z1: "is_zero c1 \<longleftrightarrow> is_zero s1" by (simp add: is_zero_val v1)
  have z2: "is_zero c2 \<longleftrightarrow> is_zero s2" by (simp add: is_zero_val v2)
  have ve1: "dec_val e1 = dec_val s1"
    unfolding e1_def using p1 v1
    by (simp add: dec_add_zero_left is_zero_def dec_fix_in_prec)
  have ve2: "dec_val e2 = dec_val s2" if "is_zero s1"
  proof -
    have "is_zero e1" using that ve1 by (simp add: is_zero_val)
    then show ?thesis
      unfolding e2_def using p2 v2 by (simp add: dec_add_zero_left dec_fix_in_prec)
  qed
  have ve3: "dec_val (dec_add e2 m) = dec_val (dec_fix m)" if "is_zero s1" "is_zero s2" for m
  proof -
    have "is_zero e2" using that ve2 by (simp add: is_zero_val)
    then show ?thesis by (rule dec_add_zero_left)
  qed
  have ze2: "dec_val e2 = 0" if "is_zero s1" "is_zero s2"
    using that ve2 by (simp add: is_zero_val)
  have code: "fst (calc_external_for_block block) =
                (if is_zero c1 then
                   (if is_zero c2 then
                      (case max_amount (first_amounts has_signed_glyph block) of
                         None \<Rightarrow> e2 | Some best \<Rightarrow> dec_add e2 best)
                    else e2)
                 else e1)"
    unfolding calc_external_for_block_def Let_def c1_def c2_def e1_def e2_def foldl_step3
      max_amount_def
    using True by simp
  show ?thesis
    unfolding code Let_def s1_def [symmetric] s2_def [symmetric] z1 z2
    using True ve1 ve2 ve3 ze2 by (auto split: option.splits)
qed

lemma contains_glyph_halfwidth:
  "ch_fullwidth_yen \<notin> set l \<Longrightarrow> contains_glyph l \<longleftrightarrow> py_in [ch_yen] l"
  by (simp add: contains_glyph_def py_in_single)

lemma step_sum_cong: "(\<And>l. l \<in> set block \<Longrightarrow> q l = q' l) \<Longrightarrow> step_sum q block = step_sum q' block"
proof -
  assume "\<And>l. l \<in> set block \<Longrightarrow> q l = q' l"
  then have "filter q block = filter q' block" by (intro filter_cong) simp_all
  then show ?thesis by (simp add: step_sum_def)
qed

lemma fallback_value:
  assumes "\<forall>l\<in>set block. ch_fullwidth_yen \<notin> set l"
  shows "dec_val (fst (calc_external_for_block block)) =
           dec_val (fallback_external has_signed_glyph block)"
proof -
  have 1: "step_sum (\<lambda>l. has_method_keyword l \<and> contains_glyph l) block =
           step_sum (\<lambda>l. has_method_keyword l \<and> py_in [ch_yen] l) block"
    using assms by (intro step_sum_cong) (simp add: contains_glyph_halfwidth)
  have 2: "step_sum (\<lambda>l. contains_glyph l \<and> \<not> list_ex (\<lambda>w. py_in w l) wallet_words \<and>
                          \<not> has_signed_glyph l) block =
           step_sum (\<lambda>l. py_in [ch_yen] l \<and> \<not> list_ex (\<lambda>w. py_in w l) wallet_words \<and>
                          \<not> has_signed_glyph l) block"
    using assms by (intro step_sum_cong) (simp add: contains_glyph_halfwidth)
  show ?thesis
    unfolding calc_fst_value fallback_external_def 1 2
    by (simp add: Let_def dec_val_def split: option.splits)
qed

lemmas fallback_ev = alipay_word_def spaced_debit_line_def price_line_def
  fullwidth_price_line_def contains_glyph_def line_sum_def step_sum_def first_amounts_def
  max_step_def max_amount_def fallback_external_def

text \<open>
  Claim C1, as the code has it. For a block in which no line contains the full-width
  glyph, the external contribution has the value of the three-step fallback, where "the
  line carries a signed token" means that the line contains a plus or a minus directly
  followed by a glyph: the sum of step 1 when it is not zero, else the sum of step 2 when
  it is not zero, else the greatest first amount of the lines of step 3, rounded to the
  precision, or zero when there is none. A block with no payment keyword contributes
  exactly zero. \<open>max_amount\<close> returns an amount of the list that no amount of the list
  exceeds in value, and returns nothing only for the empty list.
\<close>

theorem C1_external_three_steps:
  "((\<forall>l\<in>set block. ch_fullwidth_yen \<notin> set l) \<longrightarrow>
      dec_val (fst (calc_external_for_block block)) =
        dec_val (fallback_external has_signed_glyph block)) \<and>
   (\<not> has_external_method block \<longrightarrow> fst (calc_external_for_block block) = Dec 0 0) \<and>
   (max_amount ds = None \<longleftrightarrow> ds = []) \<and>
   (\<forall>m. max_amount ds = Some m \<longrightarrow> m \<in> set ds \<and> (\<forall>d\<in>set ds. dec_val d \<le> dec_val m))"
proof -
  have "\<not> has_external_method block \<longrightarrow> fst (calc_external_for_block block) = Dec 0 0"
    by (simp add: calc_external_for_block_def Let_def)
  then show ?thesis
    using fallback_value [of block] max_amount_props [of ds] by blast
qed

text \<open>
  Claim C1 as stated fails. In the block of the wallet keyword and the line
  \<open>- G5.00 G3.00\<close>, where a space follows the minus, the second line carries a signed
  token: by the claim step 2 leaves the line out and step 3 contributes its first amount,
  5.00. The code looks for a minus directly before a glyph, finds none, sums the line in
  step 2 and contributes 8.00.
\<close>

theorem C1_external_three_steps_counterexample:
  "fst (calc_external_for_block [alipay_word, spaced_debit_line]) = Dec 800 (- 2) \<and>
   fallback_external contains_signed_token [alipay_word, spaced_debit_line] = Dec 500 (- 2)"
proof -
  have 1: "fst (calc_external_for_block [alipay_word, spaced_debit_line]) = Dec 800 (- 2)"
    by (simp add: fallback_ev ev)
  have 2: "fallback_external contains_signed_token [alipay_word, spaced_debit_line] =
             Dec 500 (- 2)"
    by (simp add: fallback_ev ev)
  show ?thesis using 1 2 by simp
qed

theorem C1_external_three_steps_witness:
  "dec_val (fst (calc_external_for_block [alipay_word, price_line])) = 59 \<and>
   fst (calc_external_for_block [price_line]) = Dec 0 0 \<and>
   max_amount [Dec 500 (- 2), Dec 800 (- 2)] = Some (Dec 800 (- 2)) \<and>
   dec_val (Dec 500 (- 2)) \<le> dec_val (Dec 800 (- 2))"
proof -
  have h1: "\<forall>l\<in>set [alipay_word, price_line]. ch_fullwidth_yen \<notin> set l"
    by (simp add: fallback_ev)
  have h2: "\<not> has_external_method [price_line]"
    by (simp add: fallback_ev ev)
  have m: "max_amount [Dec 500 (- 2), Dec 800 (- 2)] = Some (Dec 800 (- 2))"
    by (simp add: fallback_ev ev)
  have f: "fallback_external has_signed_glyph [alipay_word, price_line] = Dec 5900 (- 2)"
    by (simp add: fallback_ev ev)
  have "dec_val (fst (calc_external_for_block [alipay_word, price_line])) =
          dec_val (fallback_external has_signed_glyph [alipay_word, price_line])"
    using C1_external_three_steps [of "[alipay_word, price_line]"] h1 by blast
  then have 1: "dec_val (fst (calc_external_for_block [alipay_word, price_line])) = 59"
    by (simp add: f dec_val_def)
  have 2: "fst (calc_external_for_block [price_line]) = Dec 0 0"
    using C1_external_three_steps [of "[price_line]"] h2 by blast
  have 3: "dec_val (Dec 500 (- 2)) \<le> dec_val (Dec 800 (- 2))"
    using C1_external_three_steps [of "[]" "[Dec 500 (- 2), Dec 800 (- 2)]"] m by simp
  show ?thesis using 1 2 3 m by simp
qed

text \<open>
  Steps 1 and 2 test a line for the half-width glyph only. The amount of a line with a
  payment keyword and a price under the full-width glyph is extracted by
  \<open>extract_amounts\<close>, yet the block contributes zero.
\<close>

lemma fullwidth_glyph_line_ignored:
  "extract_amounts fullwidth_price_line = [Dec 5900 (- 2)] \<and>
   has_external_method [fullwidth_price_line] \<and>
   fst (calc_external_for_block [fullwidth_price_line]) = Dec 0 0"
  by (simp add: fallback_ev ev)

end
